theory Spec2Isabelle
  imports Main "HOL-Library.AList" "HOL-Library.Sublist"
begin

section \<open>Python strings\<close>

text \<open>
  Texts, session identifiers, tokens and labels are Python \<open>str\<close> values, modelled as
  \<open>string\<close>. The three \<open>str\<close> operations the redactor uses are written out:
  \<open>sub in s\<close>, \<open>s.replace(old, new)\<close> and \<open>s.rsplit('_', 1)[0]\<close>.
\<close>

text \<open>\<open>sub in s\<close>: \<open>sub\<close> occurs in \<open>s\<close> as a contiguous block.\<close>

fun str_contains :: "string \<Rightarrow> string \<Rightarrow> bool" where
  "str_contains sub [] = (sub = [])"
| "str_contains sub (c # cs) = (prefix sub (c # cs) \<or> str_contains sub cs)"

text \<open>
  \<open>s.replace(old, new)\<close>: every non-overlapping occurrence of \<open>old\<close>, found scanning
  from the left, is replaced. With an empty \<open>old\<close> Python puts \<open>new\<close> before every
  character and at the end.
\<close>

function replace_scan :: "string \<Rightarrow> string \<Rightarrow> string \<Rightarrow> string" where
  "replace_scan old new [] = []"
| "replace_scan old new (c # cs) =
     (if old \<noteq> [] \<and> prefix old (c # cs)
      then new @ replace_scan old new (drop (length old) (c # cs))
      else c # replace_scan old new cs)"
  by pat_completeness auto
termination
  by (relation "measure (\<lambda>(old, new, s). length s)") (auto simp: neq_Nil_conv)

definition str_replace :: "string \<Rightarrow> string \<Rightarrow> string \<Rightarrow> string" where
  "str_replace old new s =
     (if old = [] then new @ concat (map (\<lambda>c. c # new) s) else replace_scan old new s)"

text \<open>
  \<open>token.rsplit('_', 1)[0]\<close>: the part before the last underscore, the whole string
  when it has none.
\<close>

definition rsplit_head :: "string \<Rightarrow> string" where
  "rsplit_head s =
     (if CHR ''_'' \<in> set s
      then rev (tl (dropWhile (\<lambda>c. c \<noteq> CHR ''_'') (rev s)))
      else s)"

text \<open>\<open>str(n)\<close> for a Python integer: decimal digits, a minus sign when negative.\<close>

definition digit_char :: "nat \<Rightarrow> char" where
  "digit_char d = char_of (48 + d)"

fun str_nat :: "nat \<Rightarrow> string" where
  "str_nat n = (if n < 10 then [digit_char n] else str_nat (n div 10) @ [digit_char (n mod 10)])"

declare str_nat.simps [simp del]

definition str_int :: "int \<Rightarrow> string" where
  "str_int i = (if i < 0 then CHR ''-'' # str_nat (nat (- i)) else str_nat (nat i))"

section \<open>The redactor's state\<close>

text \<open>
  \<open>PIIRedactor.__init__\<close> creates two dictionaries keyed by session identifier.
  A session's token mapping is a Python \<open>dict\<close> that is iterated (reverse lookup,
  restore, statistics), so it is an association list in insertion order;
  \<open>AList.update\<close> is the dictionary assignment: an existing key keeps its place,
  a new key goes to the end. The outer dictionaries and the counters are only looked
  up, so they are maps.
\<close>

type_synonym session_map = "(string \<times> string) list"

record PIIRedactor =
  redaction_map :: "string \<rightharpoonup> session_map"
  token_counters :: "string \<rightharpoonup> (string \<rightharpoonup> int)"

definition PIIRedactor_init :: PIIRedactor where
  "PIIRedactor_init = \<lparr>redaction_map = Map.empty, token_counters = Map.empty\<rparr>"

datatype error = KeyError | AttributeError

text \<open>
  \<open>_get_or_create_token\<close>: the first entry of the session's mapping whose value is
  \<open>original_value\<close> gives the token; otherwise the counter of \<open>pii_type\<close> is
  incremented and a token is minted. Subscripting a dictionary with a missing
  session raises \<open>KeyError\<close>.
\<close>

text \<open>The token format \<open>f"{pii_type}_{counter}"\<close>.\<close>

definition format_token :: "string \<Rightarrow> int \<Rightarrow> string" where
  "format_token pii_type counter = pii_type @ ''_'' @ str_int counter"

definition get_or_create_token ::
  "PIIRedactor \<Rightarrow> string \<Rightarrow> string \<Rightarrow> string \<Rightarrow> error + (string \<times> PIIRedactor)" where
  "get_or_create_token self session_id pii_type original_value =
     (case redaction_map self session_id of
        None \<Rightarrow> Inl KeyError
      | Some session_map \<Rightarrow>
          (case find (\<lambda>(token, value). value = original_value) session_map of
             Some (token, value) \<Rightarrow> Inr (token, self)
           | None \<Rightarrow>
               (case token_counters self session_id of
                  None \<Rightarrow> Inl KeyError
                | Some cs \<Rightarrow>
                    (let counter = (case cs pii_type of None \<Rightarrow> 0 | Some c \<Rightarrow> c) + 1;
                         token = format_token pii_type counter
                     in Inr (token,
                          self\<lparr>token_counters :=
                                 (token_counters self)(session_id \<mapsto> cs(pii_type \<mapsto> counter)),
                               redaction_map :=
                                 (redaction_map self)(session_id \<mapsto>
                                    AList.update token original_value session_map)\<rparr>)))))"

text \<open>\<open>restore\<close>: every token of the session, in stored order, is replaced by its value.\<close>

definition restore :: "PIIRedactor \<Rightarrow> string \<Rightarrow> string \<Rightarrow> string" where
  "restore self text session_id =
     (if text = [] then text
      else (case redaction_map self session_id of
              None \<Rightarrow> text
            | Some session_map \<Rightarrow>
                fold (\<lambda>(token, original_value) restored_text.
                        str_replace (''['' @ token @ '']'') original_value restored_text)
                     session_map text))"

text \<open>
  \<open>get_redaction_stats\<close>: the \<open>by_type\<close> dictionary is built in the order of the
  session's tokens.
\<close>

record stats =
  total_redactions :: int
  by_type :: "(string \<times> int) list"

definition count_by_type :: "session_map \<Rightarrow> (string \<times> int) list" where
  "count_by_type session_map =
     fold (\<lambda>token by_type.
             (let pii_type = rsplit_head token
              in AList.update pii_type
                   ((case map_of by_type pii_type of None \<Rightarrow> 0 | Some n \<Rightarrow> n) + 1) by_type))
          (map fst session_map) []"

definition get_redaction_stats :: "PIIRedactor \<Rightarrow> string \<Rightarrow> stats" where
  "get_redaction_stats self session_id =
     (case redaction_map self session_id of
        None \<Rightarrow> \<lparr>total_redactions = 0, by_type = []\<rparr>
      | Some session_map \<Rightarrow>
          \<lparr>total_redactions = int (length session_map), by_type = count_by_type session_map\<rparr>)"

text \<open>\<open>clear_session\<close> deletes the session from both dictionaries, where present.\<close>

definition clear_session :: "PIIRedactor \<Rightarrow> string \<Rightarrow> PIIRedactor" where
  "clear_session self session_id =
     self\<lparr>redaction_map := (redaction_map self)(session_id := None),
          token_counters := (token_counters self)(session_id := None)\<rparr>"

text \<open>
  \<open>export_redaction_map\<close> returns the empty dictionary for an unknown session, and
  the session's identifier, mapping and statistics otherwise.
\<close>

datatype export = EmptyExport | Export string session_map stats

definition export_redaction_map :: "PIIRedactor \<Rightarrow> string \<Rightarrow> export" where
  "export_redaction_map self session_id =
     (case redaction_map self session_id of
        None \<Rightarrow> EmptyExport
      | Some session_map \<Rightarrow> Export session_id session_map (get_redaction_stats self session_id))"

section \<open>Regular expressions\<close>

text \<open>
  The patterns of \<open>pii_patterns.py\<close> are matched by Python's \<open>re\<close> module. Its
  backtracking search is modelled on the constructs the patterns use: word boundaries,
  character sets, sequence, alternation and greedy bounded repetition. A match state is
  the character before the current position (none at the start of the text) and the
  text that remains. \<open>rx_match\<close> lists the states after a match in the order in which
  the backtracking search tries them, so the head of the list is the match \<open>re\<close>
  reports. A character of the model is a code point below 256, and the classes
  \<open>\w\<close>, \<open>\s\<close> and \<open>\d\<close> are the ones \<open>re\<close> uses for \<open>str\<close>
  patterns (Unicode matching), restricted to these code points.
\<close>

datatype rx =
    Eps
  | Boundary
  | Class "(char \<times> char) list"
  | Seq rx rx
  | Alt rx rx
  | Repeat nat "nat option" rx

type_synonym match_state = "char option \<times> string"

definition in_class :: "(char \<times> char) list \<Rightarrow> char \<Rightarrow> bool" where
  "in_class ranges c =
     list_ex (\<lambda>(lo, hi). (of_char lo :: nat) \<le> of_char c \<and> (of_char c :: nat) \<le> of_char hi) ranges"

text \<open>
  \<open>\w\<close>: a code point that is alphanumeric for Python (\<open>str.isalnum\<close>) or the
  underscore. Below 256 these are the ASCII letters and digits and, above 127, the
  letters (170, 181, 186, 192 to 214, 216 to 246, 248 to 255), the superscript digits
  (178, 179, 185) and the vulgar fractions (188 to 190).
\<close>

definition is_word :: "char \<Rightarrow> bool" where
  "is_word c =
     in_class [(CHR ''a'', CHR ''z''), (CHR ''A'', CHR ''Z''), (CHR ''0'', CHR ''9''),
               (CHR ''_'', CHR ''_''), (CHR 0xAA, CHR 0xAA), (CHR 0xB2, CHR 0xB3),
               (CHR 0xB5, CHR 0xB5), (CHR 0xB9, CHR 0xBA), (CHR 0xBC, CHR 0xBE),
               (CHR 0xC0, CHR 0xD6), (CHR 0xD8, CHR 0xF6), (CHR 0xF8, CHR 0xFF)] c"

definition at_boundary :: "match_state \<Rightarrow> bool" where
  "at_boundary st =
     ((case fst st of None \<Rightarrow> False | Some c \<Rightarrow> is_word c) \<noteq>
      (case snd st of [] \<Rightarrow> False | c # cs \<Rightarrow> is_word c))"

text \<open>
  Greedy repetition between \<open>lo\<close> and \<open>hi\<close> exactly (\<open>None\<close>: no upper bound): single more
  iteration is tried before stopping. Past the required iterations, an iteration that
  consumes nothing ends the repetition, so the remaining text bounds their number.
\<close>

fun repeat_match ::
  "(match_state \<Rightarrow> match_state list) \<Rightarrow> nat \<Rightarrow> nat option \<Rightarrow> nat \<Rightarrow> match_state \<Rightarrow> match_state list" where
  "repeat_match f lo hi 0 st = (if lo = 0 then [st] else [])"
| "repeat_match f lo hi (Suc fuel) st =
     (if hi = Some 0 then [st]
      else concat (map (repeat_match f (lo - 1) (map_option (\<lambda>h. h - 1) hi) fuel)
                       (filter (\<lambda>st'. 0 < lo \<or> length (snd st') < length (snd st)) (f st)))
           @ (if lo = 0 then [st] else []))"

primrec rx_match :: "rx \<Rightarrow> match_state \<Rightarrow> match_state list" where
  "rx_match Eps = (\<lambda>st. [st])"
| "rx_match Boundary = (\<lambda>st. if at_boundary st then [st] else [])"
| "rx_match (Class ranges) =
     (\<lambda>st. case snd st of
             [] \<Rightarrow> []
           | c # cs \<Rightarrow> if in_class ranges c then [(Some c, cs)] else [])"
| "rx_match (Seq r1 r2) = (\<lambda>st. concat (map (rx_match r2) (rx_match r1 st)))"
| "rx_match (Alt r1 r2) = (\<lambda>st. rx_match r1 st @ rx_match r2 st)"
| "rx_match (Repeat lo hi r) = (\<lambda>st. repeat_match (rx_match r) lo hi (lo + length (snd st)) st)"

text \<open>
  \<open>re.finditer\<close> yields the non-overlapping matches from left to right; the model
  lists their \<open>group(0)\<close>. After an empty match the search resumes at the same
  position and must advance.
\<close>

function finditer_from :: "rx \<Rightarrow> bool \<Rightarrow> char option \<Rightarrow> string \<Rightarrow> string list" where
  "finditer_from r must_advance prev s =
     (case filter (\<lambda>st'. length (snd st') \<le> length s \<and>
                         (if must_advance then length (snd st') < length s else True))
                  (rx_match r (prev, s)) of
        [] \<Rightarrow> (case s of [] \<Rightarrow> [] | c # cs \<Rightarrow> finditer_from r False (Some c) cs)
      | st' # other \<Rightarrow>
          (if length (snd st') < length s
           then take (length s - length (snd st')) s # finditer_from r False (fst st') (snd st')
           else [] # finditer_from r True prev s))"
  by pat_completeness auto
termination
  by (relation "measure (\<lambda>(r, must_advance, prev, s). 2 * length s + (if must_advance then 0 else 1))")
     (auto simp: filter_eq_Cons_iff)

definition finditer :: "rx \<Rightarrow> string \<Rightarrow> string list" where
  "finditer pattern s = finditer_from pattern False None s"

subsection \<open>The pattern table\<close>

definition lit :: "string \<Rightarrow> rx" where
  "lit s = foldr (\<lambda>c r. Seq (Class [(c, c)]) r) s Eps"

definition seqs :: "rx list \<Rightarrow> rx" where
  "seqs rs = foldr Seq rs Eps"

fun alts :: "rx list \<Rightarrow> rx" where
  "alts [] = Eps"
| "alts [r] = r"
| "alts (r # rs) = Alt r (alts rs)"

definition optional :: "rx \<Rightarrow> rx" where
  "optional r = Repeat 0 (Some 1) r"

definition many1 :: "rx \<Rightarrow> rx" where
  "many1 r = Repeat 1 None r"

definition exactly :: "nat \<Rightarrow> rx \<Rightarrow> rx" where
  "exactly n r = Repeat n (Some n) r"

definition digit :: rx where
  "digit = Class [(CHR ''0'', CHR ''9'')]"

definition upper :: "char \<times> char" where
  "upper = (CHR ''A'', CHR ''Z'')"

definition lower :: "char \<times> char" where
  "lower = (CHR ''a'', CHR ''z'')"

definition single :: "char \<Rightarrow> char \<times> char" where
  "single c = (c, c)"

text \<open>
  \<open>\s\<close>: a code point that is whitespace for Python (\<open>str.isspace\<close>). Below 256:
  tab to carriage return, the four separators 28 to 31, the space, next line (133) and
  the no-break space (160). \<open>\d\<close> is a decimal digit; below 256 only 0 to 9 are.
\<close>

definition whitespace :: "(char \<times> char) list" where
  "whitespace = [(CHR 0x09, CHR 0x0D), (CHR 0x1C, CHR 0x1F), single CHR '' '',
                 single (CHR 0x85), single (CHR 0xA0)]"

record pii_config =
  pattern :: rx
  label :: string
  description :: string

text \<open>\<open>PII_PATTERNS\<close>, in the order of the dictionary literal.\<close>

definition email_pattern :: rx where
  "email_pattern =
     seqs [Boundary,
           many1 (Class [upper, lower, (CHR ''0'', CHR ''9''), single CHR ''.'', single CHR ''_'',
                        single CHR ''%'', single CHR ''+'', single CHR ''-'']),
           lit ''@'',
           many1 (Class [upper, lower, (CHR ''0'', CHR ''9''), single CHR ''.'', single CHR ''-'']),
           lit ''.'',
           Repeat 2 None (Class [upper, single CHR ''|'', lower]),
           Boundary]"

definition phone_pattern :: rx where
  "phone_pattern =
     seqs [Boundary,
           optional (seqs [optional (lit ''+''), lit ''1'', optional (Class [single CHR ''-'', single CHR ''.''])]),
           optional (lit ''(''), exactly 3 digit, optional (lit '')''),
           optional (Class [single CHR ''-'', single CHR ''.'']), exactly 3 digit,
           optional (Class [single CHR ''-'', single CHR ''.'']), exactly 4 digit,
           Boundary]"

definition ssn_pattern :: rx where
  "ssn_pattern =
     seqs [Boundary, exactly 3 digit, lit ''-'', exactly 2 digit, lit ''-'', exactly 4 digit, Boundary]"

definition credit_card_pattern :: rx where
  "credit_card_pattern =
     seqs [Boundary, exactly 4 digit, optional (Class (single CHR ''-'' # whitespace)),
           exactly 4 digit, optional (Class (single CHR ''-'' # whitespace)),
           exactly 4 digit, optional (Class (single CHR ''-'' # whitespace)),
           exactly 4 digit, Boundary]"

definition ip_address_pattern :: rx where
  "ip_address_pattern =
     seqs [Boundary, exactly 3 (seqs [Repeat 1 (Some 3) digit, lit ''.'']),
           Repeat 1 (Some 3) digit, Boundary]"

definition date_of_birth_pattern :: rx where
  "date_of_birth_pattern =
     seqs [Boundary,
           alts [seqs [lit ''0'', Class [(CHR ''1'', CHR ''9'')]],
                 seqs [lit ''1'', Class [(CHR ''0'', CHR ''2'')]]],
           Class [single CHR ''/'', single CHR ''-''],
           alts [seqs [lit ''0'', Class [(CHR ''1'', CHR ''9'')]],
                 seqs [Class [single CHR ''1'', single CHR ''2''], digit],
                 seqs [lit ''3'', Class [single CHR ''0'', single CHR ''1'']]],
           Class [single CHR ''/'', single CHR ''-''],
           alts [lit ''19'', lit ''20''],
           exactly 2 digit, Boundary]"

definition name_pattern :: rx where
  "name_pattern =
     seqs [Boundary,
           Repeat 1 (Some 2) (seqs [Class [upper], many1 (Class [lower]), lit '' '']),
           Class [upper], many1 (Class [lower]), Boundary]"

definition address_pattern :: rx where
  "address_pattern =
     seqs [Boundary, many1 digit, many1 (Class whitespace), many1 (Class (upper # lower # whitespace)),
           alts [lit ''Street'', lit ''St'', lit ''Avenue'', lit ''Ave'', lit ''Road'',
                 lit ''Rd'', lit ''Boulevard'', lit ''Blvd'', lit ''Lane'', lit ''Ln'',
                 lit ''Drive'', lit ''Dr''],
           Boundary]"

definition PII_PATTERNS :: "(string \<times> pii_config) list" where
  "PII_PATTERNS =
     [(''email'', \<lparr>pattern = email_pattern, label = ''EMAIL'', description = ''Email address''\<rparr>),
      (''phone'', \<lparr>pattern = phone_pattern, label = ''PHONE'', description = ''Phone number''\<rparr>),
      (''ssn'', \<lparr>pattern = ssn_pattern, label = ''SSN'',
                description = ''Social Security Number''\<rparr>),
      (''credit_card'', \<lparr>pattern = credit_card_pattern, label = ''CREDIT_CARD'',
                        description = ''Credit card number''\<rparr>),
      (''ip_address'', \<lparr>pattern = ip_address_pattern, label = ''IP_ADDRESS'',
                       description = ''IP address''\<rparr>),
      (''date_of_birth'', \<lparr>pattern = date_of_birth_pattern, label = ''DOB'',
                          description = ''Date of birth''\<rparr>),
      (''name'', \<lparr>pattern = name_pattern, label = ''PERSON'', description = ''Person name''\<rparr>),
      (''address'', \<lparr>pattern = address_pattern, label = ''ADDRESS'',
                    description = ''Physical address''\<rparr>)]"

definition KNOWN_NAMES :: "string list" where
  "KNOWN_NAMES =
     [''Garlapati Venkata Srinivas'', ''Akhil Shanmukha Kothamasu'', ''Madhu Vutukuri'',
      ''Srinivas'', ''Akhil'', ''Madhu'']"

section \<open>Redaction\<close>

text \<open>
  One entry of the metadata \<open>redact\<close> returns: the \<open>type\<close>, \<open>original\<close> and
  \<open>description\<close> keys. The metadata dictionary is an association list in insertion
  order.
\<close>

datatype redaction = Redaction (rtype: string) (original: string) (rdescription: string)

type_synonym redactions = "(string \<times> redaction) list"

type_synonym redact_state = "string \<times> redactions \<times> PIIRedactor"

text \<open>The first loop of \<open>redact\<close>, over the known names.\<close>

fun redact_known_names ::
  "string list \<Rightarrow> string \<Rightarrow> redact_state \<Rightarrow> error + redact_state" where
  "redact_known_names [] session_id st = Inr st"
| "redact_known_names (name # names) session_id (redacted_text, redactions, self) =
     (if str_contains name redacted_text
      then (case get_or_create_token self session_id ''PERSON'' name of
              Inl e \<Rightarrow> Inl e
            | Inr (token, self') \<Rightarrow>
                redact_known_names names session_id
                  (str_replace name (''['' @ token @ '']'') redacted_text,
                   AList.update token (Redaction ''PERSON'' name ''Known person name'') redactions,
                   self'))
      else redact_known_names names session_id (redacted_text, redactions, self))"

text \<open>
  The inner loop, over the matches of single pattern. The matches were found in the text
  as it stood when the pattern was applied; each replacement works on the current text.
\<close>

fun redact_matches ::
  "pii_config \<Rightarrow> string list \<Rightarrow> string \<Rightarrow> redact_state \<Rightarrow> error + redact_state" where
  "redact_matches config [] session_id st = Inr st"
| "redact_matches config (original_value # matches) session_id (redacted_text, redactions, self) =
     (if prefix ''['' original_value \<and> suffix '']'' original_value
      then redact_matches config matches session_id (redacted_text, redactions, self)
      else (case get_or_create_token self session_id (label config) original_value of
              Inl e \<Rightarrow> Inl e
            | Inr (token, self') \<Rightarrow>
                redact_matches config matches session_id
                  (str_replace original_value (''['' @ token @ '']'') redacted_text,
                   AList.update token
                     (Redaction (label config) original_value (description config)) redactions,
                   self')))"

text \<open>
  The outer loop, over the pattern table. The search function is a parameter:
  \<open>redact\<close> below passes the model of \<open>re.finditer\<close>.
\<close>

fun redact_patterns ::
  "(rx \<Rightarrow> string \<Rightarrow> string list) \<Rightarrow> (string \<times> pii_config) list \<Rightarrow> string \<Rightarrow> redact_state
     \<Rightarrow> error + redact_state" where
  "redact_patterns search [] session_id st = Inr st"
| "redact_patterns search ((pii_type, config) # patterns) session_id (redacted_text, redactions, self) =
     (case redact_matches config (search (pattern config) redacted_text) session_id
             (redacted_text, redactions, self) of
        Inl e \<Rightarrow> Inl e
      | Inr st' \<Rightarrow> redact_patterns search patterns session_id st')"

text \<open>The lazy creation of a session's two dictionaries.\<close>

definition init_session :: "PIIRedactor \<Rightarrow> string \<Rightarrow> PIIRedactor" where
  "init_session self session_id =
     (if redaction_map self session_id = None
      then self\<lparr>redaction_map := (redaction_map self)(session_id \<mapsto> []),
                token_counters := (token_counters self)(session_id \<mapsto> Map.empty)\<rparr>
      else self)"

text \<open>
  \<open>redact\<close> with the imported tables and the search function as parameters, then
  \<open>redact\<close> itself. The result is the pair the method returns and the redactor after
  the call.
\<close>

definition redact_with ::
  "(rx \<Rightarrow> string \<Rightarrow> string list) \<Rightarrow> string list \<Rightarrow> (string \<times> pii_config) list \<Rightarrow>
   PIIRedactor \<Rightarrow> string \<Rightarrow> string \<Rightarrow> error + ((string \<times> redactions) \<times> PIIRedactor)" where
  "redact_with search known_names patterns self text session_id =
     (if text = [] then Inr ((text, []), self)
      else (case redact_known_names known_names session_id
                   (text, [], init_session self session_id) of
              Inl e \<Rightarrow> Inl e
            | Inr st \<Rightarrow>
                (case redact_patterns search patterns session_id st of
                   Inl e \<Rightarrow> Inl e
                 | Inr (redacted_text, redactions, self') \<Rightarrow>
                     Inr ((redacted_text, redactions), self'))))"

definition redact ::
  "PIIRedactor \<Rightarrow> string \<Rightarrow> string \<Rightarrow> error + ((string \<times> redactions) \<times> PIIRedactor)" where
  "redact = redact_with finditer KNOWN_NAMES PII_PATTERNS"

section \<open>The advanced redactor\<close>

text \<open>
  \<open>AdvancedPIIRedactor\<close> of \<open>pii_redactor_advanced.py\<close>. The LLM Guard library is
  outside the repository: whether its import succeeded (\<open>LLM_GUARD_AVAILABLE\<close>), the
  vault it constructs and the outcome of creating a scanner and scanning a text are
  parameters. A scan either raises (\<open>Inl\<close>) or returns the sanitized text, the validity
  flag and the risk score. An attribute that \<open>__init__\<close> did not assign is \<open>None\<close>,
  and reading it raises \<open>AttributeError\<close>.
\<close>

record 'vault AdvancedPIIRedactor =
  use_llm_guard :: bool
  vault :: "'vault option"
  fallback_redactor :: "PIIRedactor option"

definition AdvancedPIIRedactor_init :: "bool \<Rightarrow> 'vault \<Rightarrow> bool \<Rightarrow> 'vault AdvancedPIIRedactor" where
  "AdvancedPIIRedactor_init LLM_GUARD_AVAILABLE new_vault use_llm_guard_arg =
     (if use_llm_guard_arg \<and> LLM_GUARD_AVAILABLE
      then \<lparr>use_llm_guard = True, vault = Some new_vault, fallback_redactor = None\<rparr>
      else \<lparr>use_llm_guard = False, vault = None, fallback_redactor = Some PIIRedactor_init\<rparr>)"

datatype 'score adv_metadata =
    PatternMetadata redactions
  | GuardMetadata (is_valid: bool) (risk_score: 'score) (original_length: int)
      (redacted_length: int) (metadata_session_id: string) (redactions_count: int)

definition count_char :: "char \<Rightarrow> string \<Rightarrow> int" where
  "count_char c s = int (length (filter (\<lambda>x. x = c) s))"

text \<open>The call \<open>self.fallback_redactor.redact(text, session_id)\<close>.\<close>

definition fallback_redact ::
  "'vault AdvancedPIIRedactor \<Rightarrow> string \<Rightarrow> string \<Rightarrow>
   error + ((string \<times> 'score adv_metadata) \<times> 'vault AdvancedPIIRedactor)" where
  "fallback_redact self text session_id =
     (case fallback_redactor self of
        None \<Rightarrow> Inl AttributeError
      | Some fallback \<Rightarrow>
          (case redact fallback text session_id of
             Inl e \<Rightarrow> Inl e
           | Inr ((redacted_text, redactions), fallback') \<Rightarrow>
               Inr ((redacted_text, PatternMetadata redactions),
                    self\<lparr>fallback_redactor := Some fallback'\<rparr>)))"

definition adv_redact ::
  "(string \<Rightarrow> 'exn + (string \<times> bool \<times> 'score)) \<Rightarrow> 'vault AdvancedPIIRedactor \<Rightarrow> string \<Rightarrow> string \<Rightarrow>
   error + ((string \<times> 'score adv_metadata) \<times> 'vault AdvancedPIIRedactor)" where
  "adv_redact scan self text session_id =
     (if text = [] then Inr ((text, PatternMetadata []), self)
      else if use_llm_guard self
      then (case scan text of
              Inr (sanitized_text, valid, risk) \<Rightarrow>
                Inr ((sanitized_text,
                      GuardMetadata valid risk (int (length text)) (int (length sanitized_text))
                        session_id
                        (max 0 (count_char CHR ''['' text - count_char CHR ''['' sanitized_text))),
                     self)
            | Inl exn \<Rightarrow> fallback_redact self text session_id)
      else fallback_redact self text session_id)"

section \<open>Sequences of calls and the invariant of the session store\<close>

text \<open>
  A sequence of \<open>redact\<close> calls, each on its own session, stopping at the first
  error. The result lists, for every call, its session and the pair it returned.
\<close>

fun redact_calls ::
  "(rx \<Rightarrow> string \<Rightarrow> string list) \<Rightarrow> string list \<Rightarrow> (string \<times> pii_config) list \<Rightarrow>
   PIIRedactor \<Rightarrow> (string \<times> string) list \<Rightarrow>
   error + ((string \<times> string \<times> redactions) list \<times> PIIRedactor)" where
  "redact_calls search known_names patterns self [] = Inr ([], self)"
| "redact_calls search known_names patterns self ((session_id, text) # calls) =
     (case redact_with search known_names patterns self text session_id of
        Inl e \<Rightarrow> Inl e
      | Inr ((redacted_text, redactions), self') \<Rightarrow>
          (case redact_calls search known_names patterns self' calls of
             Inl e \<Rightarrow> Inl e
           | Inr (results, self'') \<Rightarrow>
               Inr ((session_id, redacted_text, redactions) # results, self'')))"

text \<open>
  The value of a category's counter, 0 when the category has none yet; the tokens of
  a session that carry a category's label, in the order in which they were stored; and
  the tokens \<open>L_1, ..., L_n\<close>.
\<close>

definition counter_value :: "(string \<rightharpoonup> int) \<Rightarrow> string \<Rightarrow> int" where
  "counter_value cs pii_type = (case cs pii_type of None \<Rightarrow> 0 | Some c \<Rightarrow> c)"

definition tokens_of_type :: "string \<Rightarrow> session_map \<Rightarrow> string list" where
  "tokens_of_type pii_type session_map =
     filter (\<lambda>token. rsplit_head token = pii_type) (map fst session_map)"

definition numbered :: "string \<Rightarrow> int \<Rightarrow> string list" where
  "numbered pii_type n = map (format_token pii_type) [1..n]"

text \<open>
  What holds of every session the redactor creates: the mapping is a dictionary (no
  key twice), no value has two tokens, no counter is negative, and the tokens of each
  category are numbered from 1 to that category's counter in the order of their creation.
\<close>

definition session_inv :: "session_map \<Rightarrow> (string \<rightharpoonup> int) \<Rightarrow> bool" where
  "session_inv session_map cs \<longleftrightarrow>
     distinct (map fst session_map) \<and> distinct (map snd session_map) \<and>
     (\<forall>pii_type. 0 \<le> counter_value cs pii_type \<and>
        tokens_of_type pii_type session_map = numbered pii_type (counter_value cs pii_type))"

text \<open>The value a token stands for in a session, if the session has the token.\<close>

definition token_value :: "PIIRedactor \<Rightarrow> string \<Rightarrow> string \<Rightarrow> string option" where
  "token_value self session_id token =
     (case redaction_map self session_id of
        None \<Rightarrow> None
      | Some session_map \<Rightarrow> map_of session_map token)"

definition session_wf :: "PIIRedactor \<Rightarrow> string \<Rightarrow> bool" where
  "session_wf self session_id =
     (case redaction_map self session_id of
        None \<Rightarrow> True
      | Some session_map \<Rightarrow>
          (case token_counters self session_id of
             None \<Rightarrow> False
           | Some cs \<Rightarrow> session_inv session_map cs))"

definition store_inv :: "PIIRedactor \<Rightarrow> bool" where
  "store_inv self \<longleftrightarrow> (\<forall>session_id. session_wf self session_id)"

text \<open>
  What a session's operations read and write of the redactor: the session's entries in
  the two dictionaries. \<open>redact_view\<close> is the outcome of a \<open>redact\<close> call as its
  session sees it: the error, or the returned pair and the session's entries afterwards.
\<close>

definition session_view ::
  "PIIRedactor \<Rightarrow> string \<Rightarrow> session_map option \<times> (string \<rightharpoonup> int) option" where
  "session_view self session_id = (redaction_map self session_id, token_counters self session_id)"

definition redact_view ::
  "string \<Rightarrow> error + ((string \<times> redactions) \<times> PIIRedactor) \<Rightarrow>
   error + ((string \<times> redactions) \<times> session_map option \<times> (string \<rightharpoonup> int) option)" where
  "redact_view session_id result =
     (case result of
        Inl e \<Rightarrow> Inl e
      | Inr (out, self') \<Rightarrow> Inr (out, session_view self' session_id))"

definition loop_view ::
  "string \<Rightarrow> error + redact_state \<Rightarrow>
   error + (string \<times> redactions \<times> session_map option \<times> (string \<rightharpoonup> int) option)" where
  "loop_view session_id result =
     (case result of
        Inl e \<Rightarrow> Inl e
      | Inr (t, m, self') \<Rightarrow> Inr (t, m, session_view self' session_id))"

text \<open>
  A sequence of calls on one session, token requests and \<open>redact\<close> calls in any order,
  stopping at the first error.
\<close>

datatype session_call = TokenRequest string string | RedactCall string

fun run_calls ::
  "(rx \<Rightarrow> string \<Rightarrow> string list) \<Rightarrow> string list \<Rightarrow> (string \<times> pii_config) list \<Rightarrow>
   PIIRedactor \<Rightarrow> string \<Rightarrow> session_call list \<Rightarrow> error + PIIRedactor" where
  "run_calls search known_names patterns self session_id [] = Inr self"
| "run_calls search known_names patterns self session_id (TokenRequest pii_type v # calls) =
     (case get_or_create_token self session_id pii_type v of
        Inl e \<Rightarrow> Inl e
      | Inr (token, self') \<Rightarrow> run_calls search known_names patterns self' session_id calls)"
| "run_calls search known_names patterns self session_id (RedactCall text # calls) =
     (case redact_with search known_names patterns self text session_id of
        Inl e \<Rightarrow> Inl e
      | Inr (result, self') \<Rightarrow> run_calls search known_names patterns self' session_id calls)"

section \<open>Facts about tokens\<close>

text \<open>
  The decimal representation is injective and has no underscore, so a token determines
  its category and its number.
\<close>

lemma of_char_digit_char: "d < 10 \<Longrightarrow> (of_char (digit_char d) :: nat) = 48 + d"
  by (simp add: digit_char_def)

lemma digit_char_inj: "d < 10 \<Longrightarrow> e < 10 \<Longrightarrow> digit_char d = digit_char e \<Longrightarrow> d = e"
proof -
  assume d: "d < 10" and e: "e < 10" and eq: "digit_char d = digit_char e"
  from eq have "(of_char (digit_char d) :: nat) = of_char (digit_char e)" by simp
  with d e show ?thesis by (simp add: of_char_digit_char)
qed

lemma digit_char_not_sep: "d < 10 \<Longrightarrow> digit_char d \<noteq> CHR ''_'' \<and> digit_char d \<noteq> CHR ''-''"
proof -
  assume d: "d < 10"
  have "(of_char (digit_char d) :: nat) \<noteq> of_char CHR ''_''"
    using d by (simp add: of_char_digit_char)
  moreover have "(of_char (digit_char d) :: nat) \<noteq> of_char CHR ''-''"
    using d by (simp add: of_char_digit_char)
  ultimately show ?thesis by auto
qed

lemma str_nat_not_Nil: "str_nat n \<noteq> []"
  by (subst str_nat.simps) simp

lemma str_nat_small: "n < 10 \<Longrightarrow> str_nat n = [digit_char n]"
  by (subst str_nat.simps) simp

lemma str_nat_big: "\<not> n < 10 \<Longrightarrow> str_nat n = str_nat (n div 10) @ [digit_char (n mod 10)]"
  by (subst str_nat.simps) simp

lemma str_nat_chars: "c \<in> set (str_nat n) \<Longrightarrow> c \<noteq> CHR ''_'' \<and> c \<noteq> CHR ''-''"
proof (induction n rule: str_nat.induct)
  case (1 n)
  show ?case
  proof (cases "n < 10")
    case True
    from True have e: "str_nat n = [digit_char n]" by (rule str_nat_small)
    from "1.prems" have "c = digit_char n" unfolding e by simp
    with True show ?thesis using digit_char_not_sep [of n] by simp
  next
    case False
    from False have e: "str_nat n = str_nat (n div 10) @ [digit_char (n mod 10)]"
      by (rule str_nat_big)
    from "1.prems" have "c \<in> set (str_nat (n div 10)) \<or> c = digit_char (n mod 10)"
      unfolding e by auto
    moreover have "n mod 10 < 10" by simp
    ultimately show ?thesis
      using "1.IH" [OF False] digit_char_not_sep [of "n mod 10"] by auto
  qed
qed

lemma str_nat_inj: "str_nat n = str_nat m \<Longrightarrow> n = m"
proof (induction n arbitrary: m rule: str_nat.induct)
  case (1 n)
  show ?case
  proof (cases "n < 10")
    case n: True
    show ?thesis
    proof (cases "m < 10")
      case True
      with n "1.prems" have "digit_char n = digit_char m"
        using str_nat_small [of n] str_nat_small [of m] by simp
      with n True show ?thesis by (rule digit_char_inj)
    next
      case False
      with n "1.prems" have "[digit_char n] = str_nat (m div 10) @ [digit_char (m mod 10)]"
        using str_nat_small [of n] str_nat_big [of m] by simp
      then have "str_nat (m div 10) = []" by simp
      then show ?thesis using str_nat_not_Nil by simp
    qed
  next
    case n: False
    show ?thesis
    proof (cases "m < 10")
      case True
      with n "1.prems" have "str_nat (n div 10) @ [digit_char (n mod 10)] = [digit_char m]"
        using str_nat_small [of m] str_nat_big [of n] by simp
      then have "str_nat (n div 10) = []" by simp
      then show ?thesis using str_nat_not_Nil by simp
    next
      case False
      with n "1.prems" have "str_nat (n div 10) @ [digit_char (n mod 10)]
          = str_nat (m div 10) @ [digit_char (m mod 10)]"
        using str_nat_big [of n] str_nat_big [of m] by simp
      then have a: "str_nat (n div 10) = str_nat (m div 10)"
        and b: "digit_char (n mod 10) = digit_char (m mod 10)" by simp_all
      from "1.IH" [OF n a] have d: "n div 10 = m div 10" .
      have "n mod 10 < 10" "m mod 10 < 10" by simp_all
      then have "n mod 10 = m mod 10" using b by (rule digit_char_inj)
      with d show ?thesis by (metis div_mult_mod_eq)
    qed
  qed
qed

lemma str_int_no_underscore: "CHR ''_'' \<notin> set (str_int i)"
  using str_nat_chars by (auto simp: str_int_def)

lemma str_int_inj: "str_int i = str_int j \<Longrightarrow> i = j"
proof -
  assume e: "str_int i = str_int j"
  have neg: "\<And>a b. CHR ''-'' # str_nat a \<noteq> str_nat b"
  proof
    fix a b assume "CHR ''-'' # str_nat a = str_nat b"
    then have "CHR ''-'' \<in> set (str_nat b)" by (metis list.set_intros(1))
    then show False using str_nat_chars [of "CHR ''-''" b] by simp
  qed
  show ?thesis
  proof (cases "i < 0")
    case i: True
    show ?thesis
    proof (cases "j < 0")
      case True
      with i e have "nat (- i) = nat (- j)" by (auto simp: str_int_def dest: str_nat_inj)
      with i True show ?thesis by simp
    next
      case False
      with i e show ?thesis using neg by (auto simp: str_int_def)
    qed
  next
    case i: False
    show ?thesis
    proof (cases "j < 0")
      case True
      with i e show ?thesis using neg [of "nat (- j)" "nat i"] by (auto simp: str_int_def)
    next
      case False
      with i e have "nat i = nat j" by (auto simp: str_int_def dest: str_nat_inj)
      with i False show ?thesis by simp
    qed
  qed
qed

lemma rsplit_head_append: "CHR ''_'' \<notin> set t \<Longrightarrow> rsplit_head (l @ CHR ''_'' # t) = l"
proof -
  assume t: "CHR ''_'' \<notin> set t"
  then have "dropWhile (\<lambda>c. c \<noteq> CHR ''_'') (rev t @ CHR ''_'' # rev l) = CHR ''_'' # rev l"
    by (subst dropWhile_append2) auto
  then show ?thesis by (simp add: rsplit_head_def)
qed

lemma rsplit_head_format_token [simp]: "rsplit_head (format_token l i) = l"
  using rsplit_head_append [OF str_int_no_underscore] by (simp add: format_token_def)

lemma format_token_inj: "format_token l i = format_token l' j \<Longrightarrow> l = l' \<and> i = j"
proof -
  assume e: "format_token l i = format_token l' j"
  then have "rsplit_head (format_token l i) = rsplit_head (format_token l' j)" by simp
  then have l: "l = l'" by simp
  with e have "str_int i = str_int j" by (simp add: format_token_def)
  with l show ?thesis by (simp add: str_int_inj)
qed

section \<open>Facts about the session store\<close>

lemma find_value_Some:
  "find (\<lambda>(token, value). value = v) al = Some (t, x) \<Longrightarrow> x = v \<and> (t, v) \<in> set al"
  by (induction al) (auto split: if_splits)

lemma find_value_None:
  "find (\<lambda>(token, value). value = v) al = None \<longleftrightarrow> v \<notin> snd ` set al"
  by (induction al) (auto split: if_splits)

lemma get_or_create_token_cases:
  assumes "get_or_create_token self sid ty v = Inr (token, self')"
  obtains (found) smap where "redaction_map self sid = Some smap"
      and "find (\<lambda>(token, value). value = v) smap = Some (token, v)" and "self' = self"
  | (minted) smap cs where "redaction_map self sid = Some smap"
      and "find (\<lambda>(token, value). value = v) smap = None"
      and "token_counters self sid = Some cs"
      and "token = format_token ty (counter_value cs ty + 1)"
      and "self' = self\<lparr>token_counters :=
                           (token_counters self)(sid \<mapsto> cs(ty \<mapsto> counter_value cs ty + 1)),
                         redaction_map :=
                           (redaction_map self)(sid \<mapsto> AList.update token v smap)\<rparr>"
proof (cases "redaction_map self sid")
  case None
  with assms show ?thesis by (simp add: get_or_create_token_def)
next
  case (Some smap)
  show ?thesis
  proof (cases "find (\<lambda>(token, value). value = v) smap")
    case (Some p)
    obtain t x where p: "p = (t, x)" by (cases p)
    with Some find_value_Some [of v smap t x] have x: "x = v" by simp
    from assms \<open>redaction_map self sid = Some smap\<close> Some p
    have "token = t" "self' = self" by (auto simp: get_or_create_token_def)
    with Some p x \<open>redaction_map self sid = Some smap\<close> show ?thesis by (intro found) simp_all
  next
    case None
    show ?thesis
    proof (cases "token_counters self sid")
      case N: None
      with assms \<open>redaction_map self sid = Some smap\<close> None show ?thesis
        by (simp add: get_or_create_token_def)
    next
      case (Some cs)
      from assms \<open>redaction_map self sid = Some smap\<close> None Some
      have "token = format_token ty (counter_value cs ty + 1)"
        and "self' = self\<lparr>token_counters :=
                           (token_counters self)(sid \<mapsto> cs(ty \<mapsto> counter_value cs ty + 1)),
                         redaction_map :=
                           (redaction_map self)(sid \<mapsto> AList.update
                              (format_token ty (counter_value cs ty + 1)) v smap)\<rparr>"
        by (auto simp: get_or_create_token_def counter_value_def Let_def)
      with None Some \<open>redaction_map self sid = Some smap\<close> show ?thesis
        by (intro minted) simp_all
    qed
  qed
qed

lemma get_or_create_token_frame:
  assumes "get_or_create_token self sid ty v = Inr (token, self')" and "sid' \<noteq> sid"
  shows "redaction_map self' sid' = redaction_map self sid'"
    and "token_counters self' sid' = token_counters self sid'"
  using assms by (auto elim!: get_or_create_token_cases)

lemma get_or_create_token_total:
  assumes "redaction_map self sid = Some smap" and "token_counters self sid = Some cs"
  shows "\<exists>token self' smap' cs'. get_or_create_token self sid ty v = Inr (token, self')
           \<and> redaction_map self' sid = Some smap' \<and> token_counters self' sid = Some cs'"
  using assms
  by (cases "find (\<lambda>(token, value). value = v) smap")
     (auto simp: get_or_create_token_def Let_def)

lemma update_fresh: "k \<notin> fst ` set al \<Longrightarrow> AList.update k v al = al @ [(k, v)]"
  by (induction al) auto

lemma numbered_step:
  "0 \<le> n \<Longrightarrow> numbered ty (n + 1) = numbered ty n @ [format_token ty (n + 1)]"
  by (simp add: numbered_def upto_rec2)

lemma numbered_bound: "t \<in> set (numbered ty n) \<Longrightarrow> \<exists>i. 1 \<le> i \<and> i \<le> n \<and> t = format_token ty i"
  by (auto simp: numbered_def)

lemma next_token_fresh:
  assumes "session_inv smap cs"
  shows "format_token ty (counter_value cs ty + 1) \<notin> fst ` set smap"
proof
  let ?t = "format_token ty (counter_value cs ty + 1)"
  assume "?t \<in> fst ` set smap"
  then have "?t \<in> set (tokens_of_type ty smap)" by (simp add: tokens_of_type_def)
  with assms have "?t \<in> set (numbered ty (counter_value cs ty))" by (simp add: session_inv_def)
  then obtain i where i: "i \<le> counter_value cs ty" and e: "?t = format_token ty i"
    using numbered_bound by blast
  from e have "counter_value cs ty + 1 = i" using format_token_inj by blast
  with i show False by simp
qed

lemma tokens_of_type_append:
  "tokens_of_type ty (al @ [(t, v)]) =
     tokens_of_type ty al @ (if rsplit_head t = ty then [t] else [])"
  by (simp add: tokens_of_type_def)

lemma session_inv_mint:
  assumes inv: "session_inv smap cs" and v: "v \<notin> snd ` set smap"
  shows "session_inv (AList.update (format_token ty (counter_value cs ty + 1)) v smap)
           (cs(ty \<mapsto> counter_value cs ty + 1))"
proof -
  let ?t = "format_token ty (counter_value cs ty + 1)"
  let ?cs = "cs(ty \<mapsto> counter_value cs ty + 1)"
  have fresh: "?t \<notin> fst ` set smap" using inv by (rule next_token_fresh)
  then have upd: "AList.update ?t v smap = smap @ [(?t, v)]" by (rule update_fresh)
  have nonneg: "0 \<le> counter_value cs ty" using inv by (simp add: session_inv_def)
  have d1: "distinct (map fst (smap @ [(?t, v)]))" using inv fresh by (simp add: session_inv_def)
  have d2: "distinct (map snd (smap @ [(?t, v)]))" using inv v by (simp add: session_inv_def)
  have cnt: "0 \<le> counter_value ?cs ty'
      \<and> tokens_of_type ty' (smap @ [(?t, v)]) = numbered ty' (counter_value ?cs ty')" for ty'
  proof (cases "ty' = ty")
    case True
    have "counter_value ?cs ty = counter_value cs ty + 1" by (simp add: counter_value_def)
    moreover have "tokens_of_type ty smap = numbered ty (counter_value cs ty)"
      using inv by (simp add: session_inv_def)
    ultimately show ?thesis using True nonneg
      by (simp add: tokens_of_type_append numbered_step)
  next
    case False
    then have "counter_value ?cs ty' = counter_value cs ty'" by (simp add: counter_value_def)
    moreover have "0 \<le> counter_value cs ty'
        \<and> tokens_of_type ty' smap = numbered ty' (counter_value cs ty')"
      using inv by (simp add: session_inv_def)
    ultimately show ?thesis using False by (simp add: tokens_of_type_append)
  qed
  show ?thesis unfolding upd session_inv_def using d1 d2 cnt by blast
qed

lemma session_wf_present:
  "session_wf self sid \<Longrightarrow> redaction_map self sid = Some smap \<Longrightarrow>
     \<exists>cs. token_counters self sid = Some cs \<and> session_inv smap cs"
  by (simp add: session_wf_def split: option.splits)

lemma session_wfI:
  assumes "\<And>smap. redaction_map self sid = Some smap \<Longrightarrow>
             \<exists>cs. token_counters self sid = Some cs \<and> session_inv smap cs"
  shows "session_wf self sid"
proof (cases "redaction_map self sid")
  case None
  then show ?thesis by (simp add: session_wf_def)
next
  case (Some smap)
  with assms obtain cs where "token_counters self sid = Some cs" "session_inv smap cs" by blast
  with Some show ?thesis by (simp add: session_wf_def)
qed

lemma session_inv_empty: "session_inv [] Map.empty"
  by (simp add: session_inv_def tokens_of_type_def numbered_def counter_value_def)

lemma session_wf_frame:
  assumes "redaction_map self' sid = redaction_map self sid"
    and "token_counters self' sid = token_counters self sid"
  shows "session_wf self' sid = session_wf self sid"
  unfolding session_wf_def assms ..

lemma session_wf_init_session: "session_wf self sid' \<Longrightarrow> session_wf (init_session self sid) sid'"
  by (rule session_wfI)
     (auto simp: init_session_def session_inv_empty dest: session_wf_present split: if_splits)

lemma session_wf_clear_session: "session_wf self sid' \<Longrightarrow> session_wf (clear_session self sid) sid'"
  by (rule session_wfI)
     (auto simp: clear_session_def dest: session_wf_present split: if_splits)

lemma session_wf_get_or_create_token:
  assumes wf: "session_wf self sid'" and g: "get_or_create_token self sid ty v = Inr (token, self')"
  shows "session_wf self' sid'"
proof (cases "sid' = sid")
  case False
  with g have "redaction_map self' sid' = redaction_map self sid'"
    and "token_counters self' sid' = token_counters self sid'"
    by (rule get_or_create_token_frame)+
  then have "session_wf self' sid' = session_wf self sid'" by (rule session_wf_frame)
  with wf show ?thesis by simp
next
  case True
  from g show ?thesis
  proof (cases rule: get_or_create_token_cases)
    case (found smap)
    with wf show ?thesis by simp
  next
    case (minted smap cs)
    from wf True minted(1) obtain cs' where "token_counters self sid = Some cs'" "session_inv smap cs'"
      using session_wf_present by blast
    with minted(3) have si: "session_inv smap cs" by simp
    from minted(2) have "v \<notin> snd ` set smap" by (simp add: find_value_None)
    with si have "session_inv (AList.update token v smap) (cs(ty \<mapsto> counter_value cs ty + 1))"
      unfolding minted(4) by (rule session_inv_mint)
    with True show ?thesis by (simp add: minted(5) session_wf_def)
  qed
qed

lemma store_inv_init: "store_inv PIIRedactor_init"
  by (simp add: store_inv_def session_wf_def PIIRedactor_init_def)

section \<open>Facts about the loops of redact\<close>

text \<open>
  A property of the metadata and the redactor that every token request preserves is
  preserved by each of the three loops and by a whole call.
\<close>

lemma redact_known_names_preserves:
  assumes step: "\<And>m self ty v d token self'.
      P m self \<Longrightarrow> get_or_create_token self sid ty v = Inr (token, self') \<Longrightarrow>
      P (AList.update token (Redaction ty v d) m) self'"
  shows "redact_known_names names sid (t, m, self) = Inr (t', m', self') \<Longrightarrow> P m self \<Longrightarrow> P m' self'"
proof (induction names arbitrary: t m self)
  case Nil
  then show ?case by simp
next
  case (Cons name names)
  show ?case
  proof (cases "str_contains name t")
    case False
    with Cons.prems(1) have "redact_known_names names sid (t, m, self) = Inr (t', m', self')"
      by simp
    then show ?thesis using Cons.prems(2) by (rule Cons.IH)
  next
    case True
    with Cons.prems(1) obtain token self1 where
      g: "get_or_create_token self sid ''PERSON'' name = Inr (token, self1)" and
      r: "redact_known_names names sid
            (str_replace name (''['' @ token @ '']'') t,
             AList.update token (Redaction ''PERSON'' name ''Known person name'') m, self1)
          = Inr (t', m', self')"
      by (auto split: sum.splits)
    from Cons.prems(2) g
    have "P (AList.update token (Redaction ''PERSON'' name ''Known person name'') m) self1"
      by (rule step)
    with r show ?thesis by (rule Cons.IH)
  qed
qed

lemma redact_matches_preserves:
  assumes step: "\<And>m self ty v d token self'.
      P m self \<Longrightarrow> get_or_create_token self sid ty v = Inr (token, self') \<Longrightarrow>
      P (AList.update token (Redaction ty v d) m) self'"
  shows "redact_matches config vs sid (t, m, self) = Inr (t', m', self') \<Longrightarrow> P m self \<Longrightarrow> P m' self'"
proof (induction vs arbitrary: t m self)
  case Nil
  then show ?case by simp
next
  case (Cons v vs)
  show ?case
  proof (cases "prefix ''['' v \<and> suffix '']'' v")
    case True
    with Cons.prems(1) have "redact_matches config vs sid (t, m, self) = Inr (t', m', self')"
      by simp
    then show ?thesis using Cons.prems(2) by (rule Cons.IH)
  next
    case False
    with Cons.prems(1) obtain token self1 where
      g: "get_or_create_token self sid (label config) v = Inr (token, self1)" and
      r: "redact_matches config vs sid
            (str_replace v (''['' @ token @ '']'') t,
             AList.update token (Redaction (label config) v (description config)) m, self1)
          = Inr (t', m', self')"
      by (auto split: sum.splits)
    from Cons.prems(2) g
    have "P (AList.update token (Redaction (label config) v (description config)) m) self1"
      by (rule step)
    with r show ?thesis by (rule Cons.IH)
  qed
qed

lemma redact_patterns_preserves:
  assumes step: "\<And>m self ty v d token self'.
      P m self \<Longrightarrow> get_or_create_token self sid ty v = Inr (token, self') \<Longrightarrow>
      P (AList.update token (Redaction ty v d) m) self'"
  shows "redact_patterns search patterns sid (t, m, self) = Inr (t', m', self') \<Longrightarrow> P m self \<Longrightarrow> P m' self'"
proof (induction patterns arbitrary: t m self)
  case Nil
  then show ?case by simp
next
  case (Cons p patterns)
  obtain key config where p: "p = (key, config)" by (cases p)
  with Cons.prems(1) obtain t1 m1 self1 where
    a: "redact_matches config (search (pattern config) t) sid (t, m, self) = Inr (t1, m1, self1)" and
    b: "redact_patterns search patterns sid (t1, m1, self1) = Inr (t', m', self')"
    by (auto split: sum.splits)
  have "P m1 self1"
    by (rule redact_matches_preserves [where P = P and sid = sid]) (fact step a Cons.prems(2))+
  with b show ?case by (rule Cons.IH)
qed

lemma redact_with_preserves:
  assumes step: "\<And>m self ty v d token self'.
      P m self \<Longrightarrow> get_or_create_token self sid ty v = Inr (token, self') \<Longrightarrow>
      P (AList.update token (Redaction ty v d) m) self'"
    and r: "redact_with search names patterns self text sid = Inr ((t', m'), self')"
    and ne: "text \<noteq> []"
    and init: "P [] (init_session self sid)"
  shows "P m' self'"
proof -
  from r ne obtain t1 m1 self1 where
    a: "redact_known_names names sid (text, [], init_session self sid) = Inr (t1, m1, self1)" and
    b: "redact_patterns search patterns sid (t1, m1, self1) = Inr (t', m', self')"
    by (auto simp: redact_with_def split: sum.splits)
  have "P m1 self1"
    by (rule redact_known_names_preserves [where P = P and sid = sid]) (fact step a init)+
  show ?thesis
    by (rule redact_patterns_preserves [where P = P and sid = sid]) (fact step b \<open>P m1 self1\<close>)+
qed

text \<open>In a well-formed session no token request fails, so \<open>redact\<close> returns.\<close>

lemma redact_known_names_total:
  assumes "redaction_map self sid = Some smap" and "token_counters self sid = Some cs"
  shows "\<exists>t' m' self' smap' cs'. redact_known_names names sid (t, m, self) = Inr (t', m', self')
           \<and> redaction_map self' sid = Some smap' \<and> token_counters self' sid = Some cs'"
  using assms
proof (induction names arbitrary: t m self smap cs)
  case Nil
  then show ?case by simp
next
  case (Cons name names)
  show ?case
  proof (cases "str_contains name t")
    case False
    then show ?thesis using Cons.IH [OF Cons.prems] by simp
  next
    case True
    from get_or_create_token_total [OF Cons.prems, of "''PERSON''" name]
    obtain token self1 smap1 cs1 where
      g: "get_or_create_token self sid ''PERSON'' name = Inr (token, self1)" and
      p: "redaction_map self1 sid = Some smap1" "token_counters self1 sid = Some cs1"
      by blast
    from True g show ?thesis using Cons.IH [OF p] by auto
  qed
qed

lemma redact_matches_total:
  assumes "redaction_map self sid = Some smap" and "token_counters self sid = Some cs"
  shows "\<exists>t' m' self' smap' cs'. redact_matches config vs sid (t, m, self) = Inr (t', m', self')
           \<and> redaction_map self' sid = Some smap' \<and> token_counters self' sid = Some cs'"
  using assms
proof (induction vs arbitrary: t m self smap cs)
  case Nil
  then show ?case by simp
next
  case (Cons v vs)
  show ?case
  proof (cases "prefix ''['' v \<and> suffix '']'' v")
    case True
    then show ?thesis using Cons.IH [OF Cons.prems] by simp
  next
    case False
    from get_or_create_token_total [OF Cons.prems, of "label config" v]
    obtain token self1 smap1 cs1 where
      g: "get_or_create_token self sid (label config) v = Inr (token, self1)" and
      p: "redaction_map self1 sid = Some smap1" "token_counters self1 sid = Some cs1"
      by blast
    from False g show ?thesis using Cons.IH [OF p] by auto
  qed
qed

lemma redact_patterns_total:
  assumes "redaction_map self sid = Some smap" and "token_counters self sid = Some cs"
  shows "\<exists>t' m' self'. redact_patterns search patterns sid (t, m, self) = Inr (t', m', self')"
  using assms
proof (induction patterns arbitrary: t m self smap cs)
  case Nil
  then show ?case by simp
next
  case (Cons p patterns)
  obtain key config where p: "p = (key, config)" by (cases p)
  from redact_matches_total [OF Cons.prems, of config "search (pattern config) t" t m]
  obtain t1 m1 self1 smap1 cs1 where
    a: "redact_matches config (search (pattern config) t) sid (t, m, self) = Inr (t1, m1, self1)" and
    q: "redaction_map self1 sid = Some smap1" "token_counters self1 sid = Some cs1"
    by blast
  from Cons.IH [OF q, of t1 m1] a p show ?case by simp
qed

lemma init_session_present:
  assumes "session_wf self sid"
  shows "\<exists>smap cs. redaction_map (init_session self sid) sid = Some smap
           \<and> token_counters (init_session self sid) sid = Some cs"
proof (cases "redaction_map self sid")
  case None
  then show ?thesis by (simp add: init_session_def)
next
  case (Some smap)
  with assms obtain cs where "token_counters self sid = Some cs"
    using session_wf_present by blast
  with Some show ?thesis by (simp add: init_session_def)
qed

lemma redact_with_total:
  assumes "session_wf self sid"
  shows "\<exists>t' m' self'. redact_with search names patterns self text sid = Inr ((t', m'), self')"
proof (cases "text = []")
  case True
  then show ?thesis by (simp add: redact_with_def)
next
  case False
  from init_session_present [OF assms] obtain smap cs where
    p: "redaction_map (init_session self sid) sid = Some smap"
       "token_counters (init_session self sid) sid = Some cs" by blast
  from redact_known_names_total [OF p, of names "text" "[]"]
  obtain t1 m1 self1 smap1 cs1 where
    a: "redact_known_names names sid (text, [], init_session self sid) = Inr (t1, m1, self1)" and
    q: "redaction_map self1 sid = Some smap1" "token_counters self1 sid = Some cs1"
    by blast
  from redact_patterns_total [OF q, of search patterns t1 m1]
  obtain t' m' self' where
    b: "redact_patterns search patterns sid (t1, m1, self1) = Inr (t', m', self')" by blast
  from False a b show ?thesis by (simp add: redact_with_def)
qed

lemma redact_with_session_wf:
  assumes r: "redact_with search names patterns self text sid = Inr ((t', m'), self')"
    and wf: "session_wf self sid'"
  shows "session_wf self' sid'"
proof (cases "text = []")
  case True
  with r wf show ?thesis by (simp add: redact_with_def)
next
  case False
  show ?thesis
    by (rule redact_with_preserves [where P = "\<lambda>m s. session_wf s sid'", OF _ r False])
       (auto intro: session_wf_get_or_create_token session_wf_init_session wf)
qed

lemma redact_with_frame:
  assumes r: "redact_with search names patterns self text sid = Inr ((t', m'), self')"
    and ne: "sid' \<noteq> sid"
  shows "redaction_map self' sid' = redaction_map self sid'
       \<and> token_counters self' sid' = token_counters self sid'"
proof (cases "text = []")
  case True
  with r show ?thesis by (simp add: redact_with_def)
next
  case False
  show ?thesis
  proof (rule redact_with_preserves
      [where P = "\<lambda>m s. redaction_map s sid' = redaction_map self sid'
                       \<and> token_counters s sid' = token_counters self sid'", OF _ r False])
    show "redaction_map (init_session self sid) sid' = redaction_map self sid'
        \<and> token_counters (init_session self sid) sid' = token_counters self sid'"
      using ne by (simp add: init_session_def)
  next
    fix m s ty v d token s'
    assume "redaction_map s sid' = redaction_map self sid'
        \<and> token_counters s sid' = token_counters self sid'"
      and "get_or_create_token s sid ty v = Inr (token, s')"
    then show "redaction_map s' sid' = redaction_map self sid'
        \<and> token_counters s' sid' = token_counters self sid'"
      using ne get_or_create_token_frame [of s sid ty v token s' sid'] by simp
  qed
qed

section \<open>Empty input and unknown sessions\<close>

text \<open>
  C7. For every session, \<open>redact\<close> of the empty text returns the empty text with empty
  metadata and leaves the redactor as it was (no session state is created), and
  \<open>restore\<close> of the empty text returns the empty text.
\<close>

theorem empty_input:
  "redact self [] session_id = Inr (([], []), self) \<and> restore self [] session_id = []"
  by (simp add: redact_def redact_with_def restore_def)

text \<open>
  C8. For a session identifier with no recorded state, \<open>get_redaction_stats\<close> returns
  the zero structure, \<open>export_redaction_map\<close> the empty structure, \<open>restore\<close>
  returns any text unchanged and \<open>clear_session\<close> changes nothing. None of the four
  has a raising branch.
\<close>

theorem unknown_session:
  assumes "redaction_map self session_id = None" and "token_counters self session_id = None"
  shows "get_redaction_stats self session_id = \<lparr>total_redactions = 0, by_type = []\<rparr>
       \<and> export_redaction_map self session_id = EmptyExport
       \<and> restore self text session_id = text
       \<and> clear_session self session_id = self"
  using assms
  by (cases self)
     (simp add: get_redaction_stats_def export_redaction_map_def restore_def clear_session_def
        fun_upd_idem)

theorem unknown_session_witness:
  "get_redaction_stats PIIRedactor_init ''s1'' = \<lparr>total_redactions = 0, by_type = []\<rparr>
   \<and> export_redaction_map PIIRedactor_init ''s1'' = EmptyExport
   \<and> restore PIIRedactor_init ''see [PERSON_1]'' ''s1'' = ''see [PERSON_1]''
   \<and> clear_session PIIRedactor_init ''s1'' = PIIRedactor_init"
  using unknown_session [of PIIRedactor_init "''s1''" "''see [PERSON_1]''"]
  by (simp add: PIIRedactor_init_def)

section \<open>Degradation of the statistical backend\<close>

text \<open>
  C3 says that a failure of the statistical scan is caught and answered by the
  pattern-based engine. The handler does call \<open>self.fallback_redactor.redact\<close>, but
  \<open>__init__\<close> assigns \<open>fallback_redactor\<close> only when the statistical scanner is not
  used. So for a redactor constructed with the scanner available, every failing scan of
  a non-empty text ends in \<open>AttributeError\<close>, raised inside the handler and not caught.
\<close>

theorem degradation_raises:
  assumes "text \<noteq> []" and "scan text = Inl exn"
  shows "adv_redact scan (AdvancedPIIRedactor_init True new_vault True) text session_id
           = Inl AttributeError"
  using assms
  by (simp add: adv_redact_def AdvancedPIIRedactor_init_def fallback_redact_def)

theorem degradation_raises_witness:
  "adv_redact (\<lambda>t. Inl ()) (AdvancedPIIRedactor_init True () True) ''Call 555-123-4567'' ''s1''
     = (Inl AttributeError :: error + ((string \<times> unit adv_metadata) \<times> unit AdvancedPIIRedactor))"
  using degradation_raises [of "''Call 555-123-4567''" "\<lambda>t. Inl ()" "()" "()" "''s1''"]
  by simp

section \<open>Session isolation\<close>

lemma get_or_create_token_local:
  assumes "session_view s1 sid = session_view s2 sid"
  shows "(get_or_create_token s1 sid ty v = Inl e \<longrightarrow> get_or_create_token s2 sid ty v = Inl e)
       \<and> (get_or_create_token s1 sid ty v = Inr (token, s1') \<longrightarrow>
            (\<exists>s2'. get_or_create_token s2 sid ty v = Inr (token, s2')
                 \<and> session_view s1' sid = session_view s2' sid))"
proof -
  from assms have m: "redaction_map s2 sid = redaction_map s1 sid"
    and c: "token_counters s2 sid = token_counters s1 sid"
    by (simp_all add: session_view_def)
  show ?thesis
  proof (cases "redaction_map s1 sid")
    case None
    with m show ?thesis by (simp add: get_or_create_token_def)
  next
    case (Some smap)
    show ?thesis
    proof (cases "find (\<lambda>(token, value). value = v) smap")
      case F: (Some p)
      with Some m c show ?thesis
        by (cases p) (auto simp: get_or_create_token_def session_view_def)
    next
      case F: None
      show ?thesis
      proof (cases "token_counters s1 sid")
        case None
        with Some F m c show ?thesis by (simp add: get_or_create_token_def)
      next
        case C: (Some cs)
        with Some F m c show ?thesis
          by (auto simp: get_or_create_token_def session_view_def Let_def)
      qed
    qed
  qed
qed

lemma loop_view_eqI:
  assumes "\<And>e. r1 = Inl e \<Longrightarrow> r2 = Inl e"
    and "\<And>t m s1. r1 = Inr (t, m, s1) \<Longrightarrow> \<exists>s2. r2 = Inr (t, m, s2) \<and> session_view s1 sid = session_view s2 sid"
  shows "loop_view sid r1 = loop_view sid r2"
proof (cases r1)
  case (Inl e)
  with assms(1) show ?thesis by simp
next
  case (Inr st)
  obtain t m s1 where "st = (t, m, s1)" by (cases st)
  with Inr assms(2) show ?thesis by (auto simp: loop_view_def)
qed

lemma redact_known_names_local:
  assumes "session_view s1 sid = session_view s2 sid"
  shows "loop_view sid (redact_known_names names sid (t, m, s1))
       = loop_view sid (redact_known_names names sid (t, m, s2))"
  using assms
proof (induction names arbitrary: t m s1 s2)
  case Nil
  then show ?case by (simp add: loop_view_def)
next
  case (Cons name names)
  show ?case
  proof (cases "str_contains name t")
    case False
    then show ?thesis using Cons.IH [OF Cons.prems] by simp
  next
    case True
    show ?thesis
    proof (cases "get_or_create_token s1 sid ''PERSON'' name")
      case (Inl e)
      with get_or_create_token_local [OF Cons.prems, of "''PERSON''" name e]
      have "get_or_create_token s2 sid ''PERSON'' name = Inl e" by simp
      with Inl True show ?thesis by simp
    next
      case (Inr p)
      obtain token s1' where p: "p = (token, s1')" by (cases p)
      with Inr get_or_create_token_local [OF Cons.prems, of "''PERSON''" name _ token s1']
      obtain s2' where g2: "get_or_create_token s2 sid ''PERSON'' name = Inr (token, s2')"
        and v: "session_view s1' sid = session_view s2' sid" by auto
      from Inr p g2 True show ?thesis using Cons.IH [OF v] by simp
    qed
  qed
qed

lemma redact_matches_local:
  assumes "session_view s1 sid = session_view s2 sid"
  shows "loop_view sid (redact_matches config vs sid (t, m, s1))
       = loop_view sid (redact_matches config vs sid (t, m, s2))"
  using assms
proof (induction vs arbitrary: t m s1 s2)
  case Nil
  then show ?case by (simp add: loop_view_def)
next
  case (Cons v vs)
  show ?case
  proof (cases "prefix ''['' v \<and> suffix '']'' v")
    case True
    then show ?thesis using Cons.IH [OF Cons.prems] by simp
  next
    case False
    show ?thesis
    proof (cases "get_or_create_token s1 sid (label config) v")
      case (Inl e)
      with get_or_create_token_local [OF Cons.prems, of "label config" v e]
      have "get_or_create_token s2 sid (label config) v = Inl e" by simp
      with Inl False show ?thesis by auto
    next
      case (Inr p)
      obtain token s1' where p: "p = (token, s1')" by (cases p)
      with Inr get_or_create_token_local [OF Cons.prems, of "label config" v _ token s1']
      obtain s2' where g2: "get_or_create_token s2 sid (label config) v = Inr (token, s2')"
        and w: "session_view s1' sid = session_view s2' sid" by auto
      from Inr p g2 False show ?thesis using Cons.IH [OF w] by auto
    qed
  qed
qed

lemma loop_view_Inl: "loop_view sid r = Inl e \<longleftrightarrow> r = Inl e"
  by (cases r) (auto simp: loop_view_def)

lemma loop_view_Inr:
  "loop_view sid r = Inr (t, m, w) \<longleftrightarrow> (\<exists>s. r = Inr (t, m, s) \<and> session_view s sid = w)"
  by (cases r) (auto simp: loop_view_def)

lemma redact_patterns_local:
  assumes "session_view s1 sid = session_view s2 sid"
  shows "loop_view sid (redact_patterns search patterns sid (t, m, s1))
       = loop_view sid (redact_patterns search patterns sid (t, m, s2))"
  using assms
proof (induction patterns arbitrary: t m s1 s2)
  case Nil
  then show ?case by (simp add: loop_view_def)
next
  case (Cons p patterns)
  obtain key config where p: "p = (key, config)" by (cases p)
  let ?r1 = "redact_matches config (search (pattern config) t) sid (t, m, s1)"
  let ?r2 = "redact_matches config (search (pattern config) t) sid (t, m, s2)"
  have eq: "loop_view sid ?r1 = loop_view sid ?r2"
    using Cons.prems by (rule redact_matches_local)
  show ?case
  proof (cases ?r1)
    case (Inl e)
    with eq have "loop_view sid ?r2 = Inl e" by (simp add: loop_view_def)
    then have "?r2 = Inl e" by (simp only: loop_view_Inl)
    with Inl p show ?thesis by simp
  next
    case (Inr st)
    obtain t1 m1 s1' where st: "st = (t1, m1, s1')" by (cases st)
    with Inr eq have "loop_view sid ?r2 = Inr (t1, m1, session_view s1' sid)"
      by (simp add: loop_view_def)
    then obtain s2' where r2: "?r2 = Inr (t1, m1, s2')"
      and w: "session_view s2' sid = session_view s1' sid"
      by (auto simp: loop_view_Inr)
    from Cons.IH [OF w [symmetric], of t1 m1] Inr st r2 p show ?thesis by simp
  qed
qed

lemma init_session_local:
  "session_view s1 sid = session_view s2 sid \<Longrightarrow>
   session_view (init_session s1 sid) sid = session_view (init_session s2 sid) sid"
  by (auto simp: session_view_def init_session_def)

lemma redact_view_Inl: "redact_view sid r = Inl e \<longleftrightarrow> r = Inl e"
  by (cases r) (auto simp: redact_view_def)

lemma redact_view_Inr:
  "redact_view sid r = Inr (out, w) \<longleftrightarrow> (\<exists>s. r = Inr (out, s) \<and> session_view s sid = w)"
  by (cases r) (auto simp: redact_view_def)

lemma redact_with_local:
  assumes "session_view s1 sid = session_view s2 sid"
  shows "redact_view sid (redact_with search names patterns s1 text sid)
       = redact_view sid (redact_with search names patterns s2 text sid)"
proof (cases "text = []")
  case True
  with assms show ?thesis by (simp add: redact_with_def redact_view_def)
next
  case False
  let ?k1 = "redact_known_names names sid (text, [], init_session s1 sid)"
  let ?k2 = "redact_known_names names sid (text, [], init_session s2 sid)"
  have eq: "loop_view sid ?k1 = loop_view sid ?k2"
    using init_session_local [OF assms] by (rule redact_known_names_local)
  show ?thesis
  proof (cases ?k1)
    case (Inl e)
    with eq have "loop_view sid ?k2 = Inl e" by (simp add: loop_view_def)
    then have "?k2 = Inl e" by (simp only: loop_view_Inl)
    with Inl False show ?thesis by (simp add: redact_with_def)
  next
    case (Inr st)
    obtain t1 m1 s1' where st: "st = (t1, m1, s1')" by (cases st)
    with Inr eq have "loop_view sid ?k2 = Inr (t1, m1, session_view s1' sid)"
      by (simp add: loop_view_def)
    then obtain s2' where k2: "?k2 = Inr (t1, m1, s2')"
      and w: "session_view s2' sid = session_view s1' sid"
      by (auto simp: loop_view_Inr)
    let ?p1 = "redact_patterns search patterns sid (t1, m1, s1')"
    let ?p2 = "redact_patterns search patterns sid (t1, m1, s2')"
    have eq2: "loop_view sid ?p1 = loop_view sid ?p2"
      using w [symmetric] by (rule redact_patterns_local)
    have r1: "redact_with search names patterns s1 text sid
        = (case ?p1 of Inl e \<Rightarrow> Inl e | Inr (t, m, s) \<Rightarrow> Inr ((t, m), s))"
      using False Inr st by (simp add: redact_with_def)
    have r2: "redact_with search names patterns s2 text sid
        = (case ?p2 of Inl e \<Rightarrow> Inl e | Inr (t, m, s) \<Rightarrow> Inr ((t, m), s))"
      using False k2 by (simp add: redact_with_def)
    show ?thesis
    proof (cases ?p1)
      case (Inl e)
      with eq2 have "loop_view sid ?p2 = Inl e" by (simp add: loop_view_def)
      then have "?p2 = Inl e" by (simp only: loop_view_Inl)
      with Inl r1 r2 show ?thesis by simp
    next
      case (Inr st')
      obtain t' m' s1'' where st': "st' = (t', m', s1'')" by (cases st')
      with Inr eq2 have "loop_view sid ?p2 = Inr (t', m', session_view s1'' sid)"
        by (simp add: loop_view_def)
      then obtain s2'' where p2: "?p2 = Inr (t', m', s2'')"
        and w2: "session_view s2'' sid = session_view s1'' sid"
        by (auto simp: loop_view_Inr)
      from Inr st' p2 w2 r1 r2 show ?thesis by (simp add: redact_view_def)
    qed
  qed
qed

lemma redact_with_frame_view:
  assumes "redact_with search names patterns self text sid = Inr ((t', m'), self')"
    and "sid' \<noteq> sid"
  shows "session_view self' sid' = session_view self sid'"
  using redact_with_frame [OF assms] by (simp add: session_view_def)

lemma session_view_observers:
  assumes "session_view s1 sid = session_view s2 sid"
  shows "get_redaction_stats s1 sid = get_redaction_stats s2 sid"
    and "export_redaction_map s1 sid = export_redaction_map s2 sid"
    and "restore s1 t sid = restore s2 t sid"
proof -
  from assms have m: "redaction_map s1 sid = redaction_map s2 sid" by (simp add: session_view_def)
  then show st: "get_redaction_stats s1 sid = get_redaction_stats s2 sid"
    by (simp add: get_redaction_stats_def)
  from m st show "export_redaction_map s1 sid = export_redaction_map s2 sid"
    by (simp add: export_redaction_map_def split: option.splits)
  from m show "restore s1 t sid = restore s2 t sid" by (simp add: restore_def)
qed

lemma redact_calls_project:
  assumes "session_view s1 sid = session_view s2 sid"
    and "redact_calls search names patterns s1 calls = Inr (results, s1')"
  shows "\<exists>s2'. redact_calls search names patterns s2 (filter (\<lambda>call. fst call = sid) calls)
                = Inr (filter (\<lambda>result. fst result = sid) results, s2')
             \<and> session_view s2' sid = session_view s1' sid"
  using assms
proof (induction calls arbitrary: s1 s2 results)
  case Nil
  then show ?case by simp
next
  case (Cons call calls)
  obtain sid' tx where call: "call = (sid', tx)" by (cases call)
  from Cons.prems(2) call obtain t m s1a rest where
    r: "redact_with search names patterns s1 tx sid' = Inr ((t, m), s1a)" and
    c: "redact_calls search names patterns s1a calls = Inr (rest, s1')" and
    res: "results = (sid', t, m) # rest"
    by (auto split: sum.splits)
  show ?case
  proof (cases "sid' = sid")
    case False
    then have "sid \<noteq> sid'" by simp
    with r have "session_view s1a sid = session_view s1 sid" by (rule redact_with_frame_view)
    with Cons.prems(1) have "session_view s1a sid = session_view s2 sid" by simp
    from Cons.IH [OF this c] False call res show ?thesis by simp
  next
    case True
    from Cons.prems(1) have "redact_view sid (redact_with search names patterns s1 tx sid)
        = redact_view sid (redact_with search names patterns s2 tx sid)"
      by (rule redact_with_local)
    with r True have "redact_view sid (redact_with search names patterns s2 tx sid)
        = Inr ((t, m), session_view s1a sid)" by (simp add: redact_view_def)
    then obtain s2a where r2: "redact_with search names patterns s2 tx sid = Inr ((t, m), s2a)"
      and w: "session_view s2a sid = session_view s1a sid"
      by (auto simp: redact_view_Inr)
    from Cons.IH [OF w [symmetric] c] obtain s2' where
      "redact_calls search names patterns s2a (filter (\<lambda>call. fst call = sid) calls)
         = Inr (filter (\<lambda>result. fst result = sid) rest, s2')"
      and "session_view s2' sid = session_view s1' sid" by blast
    with r2 True call res show ?thesis by simp
  qed
qed

lemma store_inv_redact_with:
  assumes "redact_with search names patterns self text sid = Inr ((t', m'), self')"
    and "store_inv self"
  shows "store_inv self'"
  unfolding store_inv_def
proof
  fix sid'
  from assms(2) have "session_wf self sid'" by (simp add: store_inv_def)
  with assms(1) show "session_wf self' sid'" by (rule redact_with_session_wf)
qed

lemma redact_calls_total:
  assumes "store_inv self"
  shows "\<exists>results self'. redact_calls search names patterns self calls = Inr (results, self')
           \<and> store_inv self'"
  using assms
proof (induction calls arbitrary: self)
  case Nil
  then show ?case by simp
next
  case (Cons call calls)
  obtain sid tx where call: "call = (sid, tx)" by (cases call)
  from Cons.prems have "session_wf self sid" by (simp add: store_inv_def)
  then obtain t' m' self1 where
    a: "redact_with search names patterns self tx sid = Inr ((t', m'), self1)"
    using redact_with_total by blast
  from a Cons.prems have "store_inv self1" by (rule store_inv_redact_with)
  from Cons.IH [OF this] a call show ?case by auto
qed

text \<open>
  C5. Take any sequence of \<open>redact\<close> calls, on any sessions, that returns. For a
  session B, the calls on B alone, made on the same redactor, return the same pairs as
  they do within the whole sequence, and leave B's mapping and counters, its
  statistics, its export and every \<open>restore\<close> on B the same: what B gets and holds
  is identical whether or not the calls on the other sessions happened. In particular,
  when no call of the sequence is on B, B's mapping and counters are the ones it had
  before, so nothing minted for another session enters B's mapping. The search
  function and the two tables are arbitrary; \<open>redact\<close> is the instance with
  \<open>finditer\<close>, \<open>KNOWN_NAMES\<close> and \<open>PII_PATTERNS\<close>, which the witness uses.
\<close>

theorem session_isolation:
  assumes "redact_calls search known_names patterns self calls = Inr (results, self')"
  shows "(\<exists>self_b.
            redact_calls search known_names patterns self
              (filter (\<lambda>call. fst call = session_b) calls)
              = Inr (filter (\<lambda>result. fst result = session_b) results, self_b)
          \<and> redaction_map self_b session_b = redaction_map self' session_b
          \<and> token_counters self_b session_b = token_counters self' session_b
          \<and> get_redaction_stats self_b session_b = get_redaction_stats self' session_b
          \<and> export_redaction_map self_b session_b = export_redaction_map self' session_b
          \<and> (\<forall>t. restore self_b t session_b = restore self' t session_b))
       \<and> (filter (\<lambda>call. fst call = session_b) calls = [] \<longrightarrow>
            redaction_map self' session_b = redaction_map self session_b
          \<and> token_counters self' session_b = token_counters self session_b
          \<and> get_redaction_stats self' session_b = get_redaction_stats self session_b)"
proof -
  have "session_view self session_b = session_view self session_b" by simp
  from redact_calls_project [OF this assms] obtain self_b where
    r: "redact_calls search known_names patterns self
          (filter (\<lambda>call. fst call = session_b) calls)
          = Inr (filter (\<lambda>result. fst result = session_b) results, self_b)"
    and v: "session_view self_b session_b = session_view self' session_b" by blast
  from v have m: "redaction_map self_b session_b = redaction_map self' session_b"
    and c: "token_counters self_b session_b = token_counters self' session_b"
    by (simp_all add: session_view_def)
  note o = session_view_observers [OF v]
  have first: "\<exists>self_b.
            redact_calls search known_names patterns self
              (filter (\<lambda>call. fst call = session_b) calls)
              = Inr (filter (\<lambda>result. fst result = session_b) results, self_b)
          \<and> redaction_map self_b session_b = redaction_map self' session_b
          \<and> token_counters self_b session_b = token_counters self' session_b
          \<and> get_redaction_stats self_b session_b = get_redaction_stats self' session_b
          \<and> export_redaction_map self_b session_b = export_redaction_map self' session_b
          \<and> (\<forall>t. restore self_b t session_b = restore self' t session_b)"
    using r m c o by (intro exI [of _ self_b]) simp
  have second: "redaction_map self' session_b = redaction_map self session_b
          \<and> token_counters self' session_b = token_counters self session_b
          \<and> get_redaction_stats self' session_b = get_redaction_stats self session_b"
    if "filter (\<lambda>call. fst call = session_b) calls = []"
  proof -
    from r that have "self_b = self" by simp
    with m c o(1) show ?thesis by simp
  qed
  from first second show ?thesis by blast
qed

theorem session_isolation_witness:
  "\<exists>results self'.
     redact_calls finditer KNOWN_NAMES PII_PATTERNS PIIRedactor_init
       [(''b'', ''Madhu''), (''a'', ''Akhil and Madhu''), (''b'', ''Hi Madhu'')] = Inr (results, self')
   \<and> filter (\<lambda>result. fst result = ''b'') results
       = [(''b'', ''[PERSON_1]'', [(''PERSON_1'', Redaction ''PERSON'' ''Madhu'' ''Known person name'')]),
          (''b'', ''Hi [PERSON_1]'',
           [(''PERSON_1'', Redaction ''PERSON'' ''Madhu'' ''Known person name'')])]
   \<and> get_redaction_stats self' ''b'' = \<lparr>total_redactions = 1, by_type = [(''PERSON'', 1)]\<rparr>"
proof -
  let ?calls = "[(''b'', ''Madhu''), (''a'', ''Akhil and Madhu''), (''b'', ''Hi Madhu'')]"
  let ?out = "[(''b'', ''[PERSON_1]'', [(''PERSON_1'', Redaction ''PERSON'' ''Madhu'' ''Known person name'')]),
          (''b'', ''Hi [PERSON_1]'',
           [(''PERSON_1'', Redaction ''PERSON'' ''Madhu'' ''Known person name'')])]"
  have ev: "(case redact_calls finditer KNOWN_NAMES PII_PATTERNS PIIRedactor_init
               [(''b'', ''Madhu''), (''b'', ''Hi Madhu'')] of
       Inl e \<Rightarrow> False
     | Inr (res, s) \<Rightarrow> res = ?out
         \<and> get_redaction_stats s ''b'' = \<lparr>total_redactions = 1, by_type = [(''PERSON'', 1)]\<rparr>)"
    by code_simp
  obtain results self' where
    r: "redact_calls finditer KNOWN_NAMES PII_PATTERNS PIIRedactor_init ?calls = Inr (results, self')"
    using redact_calls_total [OF store_inv_init] by blast
  have f: "filter (\<lambda>call. fst call = ''b'') ?calls = [(''b'', ''Madhu''), (''b'', ''Hi Madhu'')]"
    by simp
  from session_isolation [OF r, of "''b''"] obtain self_b where
    b: "redact_calls finditer KNOWN_NAMES PII_PATTERNS PIIRedactor_init
          [(''b'', ''Madhu''), (''b'', ''Hi Madhu'')]
          = Inr (filter (\<lambda>result. fst result = ''b'') results, self_b)"
    and st: "get_redaction_stats self_b ''b'' = get_redaction_stats self' ''b''"
    unfolding f by blast
  from ev b st have "filter (\<lambda>result. fst result = ''b'') results = ?out
      \<and> get_redaction_stats self' ''b'' = \<lparr>total_redactions = 1, by_type = [(''PERSON'', 1)]\<rparr>"
    by simp
  with r show ?thesis by (intro exI [of _ results] exI [of _ self']) simp
qed

section \<open>Reuse of tokens\<close>

lemma find_value_update:
  "v \<notin> snd ` set al \<Longrightarrow> find (\<lambda>(token, value). value = v) (AList.update k v al) = Some (k, v)"
  by (induction al) auto

lemma get_or_create_token_again:
  assumes "get_or_create_token self sid ty v = Inr (token, self')"
  shows "get_or_create_token self' sid ty' v = Inr (token, self')"
  using assms
proof (cases rule: get_or_create_token_cases)
  case (found smap)
  then show ?thesis by (simp add: get_or_create_token_def)
next
  case (minted smap cs)
  from minted(2) have "v \<notin> snd ` set smap" by (simp add: find_value_None)
  then have "find (\<lambda>(token, value). value = v) (AList.update token v smap) = Some (token, v)"
    by (rule find_value_update)
  then show ?thesis by (simp add: minted(5) get_or_create_token_def)
qed

section \<open>Counters\<close>

lemma length_numbered: "0 \<le> n \<Longrightarrow> int (length (numbered ty n)) = n"
  by (simp add: numbered_def)

text \<open>
  C4. In a well-formed session a request for a value the session already has changes
  nothing, so no counter advances. A request for a new value under a category that has
  N - 1 tokens so far finds the counter at N - 1 (0 in a session that has none),
  increments it once, mints the token with suffix N and stores it after the others; no
  other category's counter changes.
\<close>

theorem counter_monotonicity:
  assumes "session_wf self session_id"
    and "redaction_map self session_id = Some session_map"
    and "token_counters self session_id = Some cs"
    and "get_or_create_token self session_id pii_type original_value = Inr (token, self')"
  shows "if original_value \<in> snd ` set session_map
         then self' = self
         else counter_value cs pii_type = int (length (tokens_of_type pii_type session_map))
            \<and> token = format_token pii_type (int (length (tokens_of_type pii_type session_map)) + 1)
            \<and> token_counters self' session_id
                = Some (cs(pii_type \<mapsto> counter_value cs pii_type + 1))
            \<and> redaction_map self' session_id = Some (session_map @ [(token, original_value)])"
proof -
  from assms(1-3) have inv: "session_inv session_map cs"
    using session_wf_present [of self session_id session_map] by simp
  from assms(4) show ?thesis
  proof (cases rule: get_or_create_token_cases)
    case (found smap)
    with assms(2) have "find (\<lambda>(token, value). value = original_value) session_map
        = Some (token, original_value)" by simp
    then have "find (\<lambda>(token, value). value = original_value) session_map \<noteq> None" by simp
    then have "original_value \<in> snd ` set session_map" unfolding find_value_None by simp
    with found(3) show ?thesis by simp
  next
    case (minted smap cs')
    with assms(2,3) have smap: "smap = session_map" and cs: "cs' = cs" by simp_all
    from minted(2) have new: "original_value \<notin> snd ` set session_map"
      unfolding smap by (simp add: find_value_None)
    from inv have c: "0 \<le> counter_value cs pii_type"
      and t: "tokens_of_type pii_type session_map = numbered pii_type (counter_value cs pii_type)"
      by (simp_all add: session_inv_def)
    from c have len: "int (length (tokens_of_type pii_type session_map)) = counter_value cs pii_type"
      unfolding t by (rule length_numbered)
    have tok: "token = format_token pii_type (counter_value cs pii_type + 1)"
      using minted(4) cs by simp
    have "token \<notin> fst ` set session_map" unfolding tok using inv by (rule next_token_fresh)
    then have upd: "AList.update token original_value session_map
        = session_map @ [(token, original_value)]" by (rule update_fresh)
    have "token_counters self' session_id = Some (cs(pii_type \<mapsto> counter_value cs pii_type + 1))"
      unfolding minted(5) cs by simp
    moreover have "redaction_map self' session_id = Some (session_map @ [(token, original_value)])"
      unfolding minted(5) smap upd by simp
    ultimately show ?thesis using new len tok by simp
  qed
qed

theorem counter_monotonicity_witness:
  "\<exists>self1 self2.
     get_or_create_token (init_session PIIRedactor_init ''s1'') ''s1'' ''EMAIL'' ''a@b.co''
       = Inr (''EMAIL_1'', self1)
   \<and> get_or_create_token self1 ''s1'' ''EMAIL'' ''c@d.co'' = Inr (''EMAIL_2'', self2)
   \<and> counter_value [''EMAIL'' \<mapsto> 1] ''EMAIL''
       = int (length (tokens_of_type ''EMAIL'' [(''EMAIL_1'', ''a@b.co'')]))
   \<and> token_counters self2 ''s1'' = Some [''EMAIL'' \<mapsto> 2]
   \<and> redaction_map self2 ''s1'' = Some [(''EMAIL_1'', ''a@b.co''), (''EMAIL_2'', ''c@d.co'')]"
proof -
  let ?s0 = "init_session PIIRedactor_init ''s1''"
  let ?s1 = "\<lparr>redaction_map = [''s1'' \<mapsto> [(''EMAIL_1'', ''a@b.co'')]],
              token_counters = [''s1'' \<mapsto> [''EMAIL'' \<mapsto> 1]]\<rparr>"
  have tok1: "format_token ''EMAIL'' 1 = ''EMAIL_1''" by code_simp
  have tok2: "format_token ''EMAIL'' 2 = ''EMAIL_2''" by code_simp
  have wf0: "session_wf ?s0 ''s1''"
    by (simp add: session_wf_def init_session_def PIIRedactor_init_def session_inv_empty)
  have g1: "get_or_create_token ?s0 ''s1'' ''EMAIL'' ''a@b.co'' = Inr (''EMAIL_1'', ?s1)"
    by (simp add: get_or_create_token_def init_session_def PIIRedactor_init_def tok1 Let_def)
  from wf0 g1 have wf1: "session_wf ?s1 ''s1''" by (rule session_wf_get_or_create_token)
  have "\<exists>self2. get_or_create_token ?s1 ''s1'' ''EMAIL'' ''c@d.co'' = Inr (''EMAIL_2'', self2)"
    by (simp add: get_or_create_token_def tok2 Let_def)
  then obtain self2 where
    g2: "get_or_create_token ?s1 ''s1'' ''EMAIL'' ''c@d.co'' = Inr (''EMAIL_2'', self2)" ..
  have m1: "redaction_map ?s1 ''s1'' = Some [(''EMAIL_1'', ''a@b.co'')]" by simp
  have c1: "token_counters ?s1 ''s1'' = Some [''EMAIL'' \<mapsto> 1]" by simp
  have cv: "counter_value [''EMAIL'' \<mapsto> 1] ''EMAIL'' = 1" by (simp add: counter_value_def)
  from counter_monotonicity [OF wf1 m1 c1 g2] cv
  have "counter_value [''EMAIL'' \<mapsto> 1] ''EMAIL''
          = int (length (tokens_of_type ''EMAIL'' [(''EMAIL_1'', ''a@b.co'')]))
      \<and> token_counters self2 ''s1'' = Some [''EMAIL'' \<mapsto> 2]
      \<and> redaction_map self2 ''s1'' = Some [(''EMAIL_1'', ''a@b.co''), (''EMAIL_2'', ''c@d.co'')]"
    by simp
  with g1 g2 show ?thesis by (intro exI [of _ ?s1] exI [of _ self2]) simp
qed

section \<open>One token for one value\<close>

lemma token_value_session:
  "redaction_map self sid = Some smap \<Longrightarrow> token_value self sid token = map_of smap token"
  by (simp add: token_value_def)

lemma token_value_SomeD:
  assumes "token_value self sid token = Some v"
  obtains smap where "redaction_map self sid = Some smap" and "map_of smap token = Some v"
  using assms by (cases "redaction_map self sid") (simp_all add: token_value_def)

lemma distinct_values_unique:
  assumes "distinct (map snd al)" and "(a, v) \<in> set al" and "(b, v) \<in> set al"
  shows "a = b"
proof -
  from assms(1) have "inj_on snd (set al)" by (simp add: distinct_map)
  moreover have "snd (a, v) = snd (b, v)" by simp
  ultimately have "(a, v) = (b, v)" using assms(2,3) by (rule inj_onD)
  then show ?thesis by simp
qed

lemma token_value_unique:
  assumes wf: "session_wf self sid"
    and a: "token_value self sid token1 = Some v" and b: "token_value self sid token2 = Some v"
  shows "token1 = token2"
proof -
  from a obtain smap where m: "redaction_map self sid = Some smap" and a': "map_of smap token1 = Some v"
    by (rule token_value_SomeD)
  from b m have b': "map_of smap token2 = Some v" by (simp add: token_value_def)
  from wf m obtain cs where "session_inv smap cs" using session_wf_present by blast
  then have d: "distinct (map snd smap)" by (simp add: session_inv_def)
  from a' have "(token1, v) \<in> set smap" by (rule map_of_SomeD)
  moreover from b' have "(token2, v) \<in> set smap" by (rule map_of_SomeD)
  ultimately show ?thesis using d by (rule distinct_values_unique [rotated])
qed

lemma token_value_lookup:
  assumes wf: "session_wf self sid" and a: "token_value self sid token = Some v"
  shows "get_or_create_token self sid ty v = Inr (token, self)"
proof -
  from a obtain smap where m: "redaction_map self sid = Some smap" and a': "map_of smap token = Some v"
    by (rule token_value_SomeD)
  from a' have "(token, v) \<in> set smap" by (rule map_of_SomeD)
  then have "v \<in> snd ` set smap" by (rule image_eqI [rotated]) simp
  then have "find (\<lambda>(token, value). value = v) smap \<noteq> None" by (simp add: find_value_None)
  then obtain t x where f: "find (\<lambda>(token, value). value = v) smap = Some (t, x)" by auto
  from find_value_Some [OF f] have x: "x = v" and tv: "(t, v) \<in> set smap" by simp_all
  from wf m obtain cs where "session_inv smap cs" using session_wf_present by blast
  then have "distinct (map fst smap)" by (simp add: session_inv_def)
  with tv have "map_of smap t = Some v" by simp
  with m have "token_value self sid t = Some v" by (simp add: token_value_def)
  with wf a have "token = t" by (rule token_value_unique)
  with f x m show ?thesis by (simp add: get_or_create_token_def)
qed

lemma token_value_step:
  assumes wf: "session_wf self sid" and g: "get_or_create_token self sid ty v = Inr (token, self')"
  shows "token_value self' sid token = Some v"
    and "token_value self sid token2 = Some x \<Longrightarrow> token_value self' sid token2 = Some x"
proof -
  have "token_value self' sid token = Some v
      \<and> (token_value self sid token2 = Some x \<longrightarrow> token_value self' sid token2 = Some x)"
    using g
  proof (cases rule: get_or_create_token_cases)
    case (found smap)
    have tv: "(token, v) \<in> set smap" using find_value_Some [OF found(2)] by simp
    from wf found(1) obtain cs where "session_inv smap cs" using session_wf_present by blast
    then have "distinct (map fst smap)" by (simp add: session_inv_def)
    with tv have "map_of smap token = Some v" by simp
    with found(1,3) show ?thesis by (simp add: token_value_def)
  next
    case (minted smap cs)
    from wf minted(1) obtain cs' where "token_counters self sid = Some cs'" "session_inv smap cs'"
      using session_wf_present by blast
    with minted(3) have "session_inv smap cs" by simp
    then have fresh: "token \<notin> fst ` set smap" unfolding minted(4) by (rule next_token_fresh)
    have new: "token_value self' sid t = ((map_of smap)(token \<mapsto> v)) t" for t
      by (simp add: token_value_def minted(5) update_conv')
    have old: "token_value self sid t = map_of smap t" for t
      using minted(1) by (simp add: token_value_def)
    have "map_of smap token2 = Some x \<longrightarrow> token2 \<noteq> token"
    proof
      assume "map_of smap token2 = Some x"
      then have "(token2, x) \<in> set smap" by (rule map_of_SomeD)
      then have "token2 \<in> fst ` set smap" by (rule image_eqI [rotated]) simp
      with fresh show "token2 \<noteq> token" by auto
    qed
    then show ?thesis by (simp add: new old)
  qed
  then show "token_value self' sid token = Some v"
    and "token_value self sid token2 = Some x \<Longrightarrow> token_value self' sid token2 = Some x"
    by simp_all
qed

lemma token_value_init_session:
  "token_value (init_session self sid) sid token = token_value self sid token"
  by (simp add: token_value_def init_session_def)

lemma redact_with_token_values:
  assumes wf: "session_wf self sid"
    and r: "redact_with search names patterns self text sid = Inr ((t', m'), self')"
  shows "session_wf self' sid
       \<and> (\<forall>token red. map_of m' token = Some red \<longrightarrow>
             token_value self' sid token = Some (original red))
       \<and> (\<forall>token v. token_value self sid token = Some v \<longrightarrow>
             token_value self' sid token = Some v)"
proof (cases "text = []")
  case True
  with r wf show ?thesis by (simp add: redact_with_def)
next
  case False
  let ?P = "\<lambda>m s. session_wf s sid
       \<and> (\<forall>token red. map_of m token = Some red \<longrightarrow> token_value s sid token = Some (original red))
       \<and> (\<forall>token v. token_value self sid token = Some v \<longrightarrow> token_value s sid token = Some v)"
  show ?thesis
  proof (rule redact_with_preserves [where P = ?P, OF _ r False])
    show "?P [] (init_session self sid)"
      using wf by (simp add: session_wf_init_session token_value_init_session)
  next
    fix m s ty v d token s'
    assume p: "?P m s" and g: "get_or_create_token s sid ty v = Inr (token, s')"
    from p have wfs: "session_wf s sid" by simp
    from wfs g have wf': "session_wf s' sid" by (rule session_wf_get_or_create_token)
    from wfs g have new: "token_value s' sid token = Some v" by (rule token_value_step(1))
    have keep: "token_value s sid t = Some x \<Longrightarrow> token_value s' sid t = Some x" for t x
      using wfs g by (rule token_value_step(2))
    have "map_of (AList.update token (Redaction ty v d) m) t = Some red \<longrightarrow>
            token_value s' sid t = Some (original red)" for t red
    proof (cases "t = token")
      case True
      with new show ?thesis by (auto simp: update_conv')
    next
      case False
      with p keep show ?thesis by (simp add: update_conv')
    qed
    moreover have "token_value self sid t = Some x \<longrightarrow> token_value s' sid t = Some x" for t x
      using p keep by simp
    ultimately show "?P (AList.update token (Redaction ty v d) m) s'"
      using wf' by simp
  qed
qed



section \<open>Clearing a session\<close>

lemma redact_with_present:
  assumes r: "redact_with search names patterns self text sid = Inr ((t', m'), self')"
    and ne: "text \<noteq> []"
  shows "redaction_map self' sid \<noteq> None"
proof (rule redact_with_preserves [where P = "\<lambda>m s. redaction_map s sid \<noteq> None", OF _ r ne])
  show "redaction_map (init_session self sid) sid \<noteq> None"
    by (simp add: init_session_def)
next
  fix m s ty v d token s'
  assume "redaction_map s sid \<noteq> None" and "get_or_create_token s sid ty v = Inr (token, s')"
  from this(2) show "redaction_map s' sid \<noteq> None"
    by (cases rule: get_or_create_token_cases) simp_all
qed

lemma session_wf_cleared: "session_wf (clear_session self sid) sid"
  by (simp add: session_wf_def clear_session_def)

lemma redact_after_clear:
  "\<exists>t' m' self'.
     redact_with search names patterns (clear_session self sid) text sid = Inr ((t', m'), self')
   \<and> (text \<noteq> [] \<longrightarrow>
        (\<exists>smap cs. redaction_map self' sid = Some smap \<and> token_counters self' sid = Some cs
           \<and> (\<forall>ty. tokens_of_type ty smap = map (format_token ty) [1..counter_value cs ty])))"
proof -
  obtain t' m' self' where
    r: "redact_with search names patterns (clear_session self sid) text sid = Inr ((t', m'), self')"
    using redact_with_total [OF session_wf_cleared] by blast
  from r session_wf_cleared have wf: "session_wf self' sid" by (rule redact_with_session_wf)
  have "\<exists>smap cs. redaction_map self' sid = Some smap \<and> token_counters self' sid = Some cs
           \<and> (\<forall>ty. tokens_of_type ty smap = map (format_token ty) [1..counter_value cs ty])"
    if ne: "text \<noteq> []"
  proof -
    from r ne have "redaction_map self' sid \<noteq> None" by (rule redact_with_present)
    then obtain smap where m: "redaction_map self' sid = Some smap" by auto
    with wf obtain cs where c: "token_counters self' sid = Some cs" and i: "session_inv smap cs"
      using session_wf_present by blast
    from i have "\<forall>ty. tokens_of_type ty smap = map (format_token ty) [1..counter_value cs ty]"
      by (simp add: session_inv_def numbered_def)
    with m c show ?thesis by simp
  qed
  with r show ?thesis by blast
qed

text \<open>
  C6. After \<open>clear_session\<close> the statistics of the session are the zero structure.
  Clearing twice is clearing once, and clearing a session that neither dictionary
  knows changes nothing. A \<open>redact\<close> call after the clearing returns, and when its text
  is not empty the tokens the session then has in each category are, in the order of
  their creation, the ones numbered 1, 2, ... up to the category's counter: the first
  token minted in a category has suffix 1.
\<close>

theorem clear_then_query:
  "get_redaction_stats (clear_session self session_id) session_id
     = \<lparr>total_redactions = 0, by_type = []\<rparr>
   \<and> clear_session (clear_session self session_id) session_id = clear_session self session_id
   \<and> (redaction_map self session_id = None \<and> token_counters self session_id = None \<longrightarrow>
        clear_session self session_id = self)
   \<and> (\<exists>redacted_text redactions self'.
         redact_with search known_names patterns (clear_session self session_id) text session_id
           = Inr ((redacted_text, redactions), self')
       \<and> (text \<noteq> [] \<longrightarrow>
            (\<exists>session_map cs.
               redaction_map self' session_id = Some session_map
             \<and> token_counters self' session_id = Some cs
             \<and> (\<forall>pii_type. tokens_of_type pii_type session_map
                    = map (format_token pii_type) [1..counter_value cs pii_type]))))"
proof -
  have a: "get_redaction_stats (clear_session self session_id) session_id
     = \<lparr>total_redactions = 0, by_type = []\<rparr>"
    by (simp add: get_redaction_stats_def clear_session_def)
  have b: "clear_session (clear_session self session_id) session_id = clear_session self session_id"
    by (simp add: clear_session_def)
  have c: "redaction_map self session_id = None \<and> token_counters self session_id = None \<longrightarrow>
        clear_session self session_id = self"
    by (cases self) (simp add: clear_session_def fun_upd_idem)
  from a b c redact_after_clear [of search known_names patterns self session_id "text"]
  show ?thesis by simp
qed

theorem clear_then_query_witness:
  "\<exists>self0 redacted_text redactions.
     redact PIIRedactor_init ''Hi Madhu'' ''s1'' = Inr ((redacted_text, redactions), self0)
   \<and> get_redaction_stats (clear_session self0 ''s1'') ''s1''
       = \<lparr>total_redactions = 0, by_type = []\<rparr>
   \<and> clear_session (clear_session self0 ''s1'') ''s1'' = clear_session self0 ''s1''
   \<and> clear_session PIIRedactor_init ''s1'' = PIIRedactor_init
   \<and> (\<exists>t m self' session_map cs.
         redact (clear_session self0 ''s1'') ''Hi Akhil'' ''s1'' = Inr ((t, m), self')
       \<and> redaction_map self' ''s1'' = Some session_map
       \<and> token_counters self' ''s1'' = Some cs
       \<and> tokens_of_type ''PERSON'' session_map
           = map (format_token ''PERSON'') [1..counter_value cs ''PERSON''])"
proof -
  have wf: "session_wf PIIRedactor_init ''s1''"
    by (simp add: session_wf_def PIIRedactor_init_def)
  then obtain t0 m0 self0 where
    r0: "redact_with finditer KNOWN_NAMES PII_PATTERNS PIIRedactor_init ''Hi Madhu'' ''s1''
           = Inr ((t0, m0), self0)"
    using redact_with_total by blast
  note c0 = clear_then_query [of self0 "''s1''" finditer KNOWN_NAMES PII_PATTERNS "''Hi Akhil''"]
  note c1 = clear_then_query [of PIIRedactor_init "''s1''" finditer KNOWN_NAMES PII_PATTERNS "''Hi Akhil''"]
  have ne: "''Hi Akhil'' \<noteq> []" by simp
  from c0 have a: "get_redaction_stats (clear_session self0 ''s1'') ''s1''
       = \<lparr>total_redactions = 0, by_type = []\<rparr>"
    and b: "clear_session (clear_session self0 ''s1'') ''s1'' = clear_session self0 ''s1''"
    by simp_all
  from c1 have c: "clear_session PIIRedactor_init ''s1'' = PIIRedactor_init"
    by (simp add: PIIRedactor_init_def)
  from c0 obtain t m self' where
    r: "redact_with finditer KNOWN_NAMES PII_PATTERNS (clear_session self0 ''s1'') ''Hi Akhil'' ''s1''
          = Inr ((t, m), self')" and
    n: "''Hi Akhil'' \<noteq> [] \<longrightarrow>
          (\<exists>session_map cs. redaction_map self' ''s1'' = Some session_map
             \<and> token_counters self' ''s1'' = Some cs
             \<and> (\<forall>pii_type. tokens_of_type pii_type session_map
                    = map (format_token pii_type) [1..counter_value cs pii_type]))"
    by auto
  from n ne obtain session_map cs where
    d: "redaction_map self' ''s1'' = Some session_map" "token_counters self' ''s1'' = Some cs"
       "tokens_of_type ''PERSON'' session_map
          = map (format_token ''PERSON'') [1..counter_value cs ''PERSON'']"
    by auto
  from r d have "\<exists>t m self' session_map cs.
         redact (clear_session self0 ''s1'') ''Hi Akhil'' ''s1'' = Inr ((t, m), self')
       \<and> redaction_map self' ''s1'' = Some session_map
       \<and> token_counters self' ''s1'' = Some cs
       \<and> tokens_of_type ''PERSON'' session_map
           = map (format_token ''PERSON'') [1..counter_value cs ''PERSON'']"
    unfolding redact_def by (intro exI conjI)
  with r0 a b c show ?thesis unfolding redact_def
    by (rule_tac x = self0 in exI, rule_tac x = t0 in exI, rule_tac x = m0 in exI)
       (intro conjI; assumption)
qed

section \<open>Reuse across categories\<close>

lemma run_calls_keeps:
  assumes "session_wf self sid"
    and "run_calls search names patterns self sid calls = Inr self'"
  shows "session_wf self' sid
       \<and> (\<forall>token v. token_value self sid token = Some v \<longrightarrow> token_value self' sid token = Some v)"
  using assms
proof (induction calls arbitrary: self)
  case Nil
  then show ?case by simp
next
  case (Cons call calls)
  show ?case
  proof (cases call)
    case (TokenRequest ty v)
    with Cons.prems(2) obtain token self1 where
      g: "get_or_create_token self sid ty v = Inr (token, self1)" and
      r: "run_calls search names patterns self1 sid calls = Inr self'"
      by (auto split: sum.splits)
    from Cons.prems(1) g have wf1: "session_wf self1 sid" by (rule session_wf_get_or_create_token)
    have keep: "token_value self sid t = Some x \<Longrightarrow> token_value self1 sid t = Some x" for t x
      using Cons.prems(1) g by (rule token_value_step(2))
    from Cons.IH [OF wf1 r] keep show ?thesis by simp
  next
    case (RedactCall tx)
    with Cons.prems(2) obtain t' m' self1 where
      g: "redact_with search names patterns self tx sid = Inr ((t', m'), self1)" and
      r: "run_calls search names patterns self1 sid calls = Inr self'"
      by (auto split: sum.splits)
    from redact_with_token_values [OF Cons.prems(1) g]
    have wf1: "session_wf self1 sid"
      and keep: "\<forall>token v. token_value self sid token = Some v \<longrightarrow>
                   token_value self1 sid token = Some v" by simp_all
    from Cons.IH [OF wf1 r] keep show ?thesis by simp
  qed
qed

text \<open>
  C10. The reverse lookup ignores the requested category. Let a value be tokenized
  under a category X in a well-formed session, and let any calls on the session
  follow: token requests for any values under any categories, and \<open>redact\<close> calls.
  A request for the same value under any category Y then returns the token of the
  first request and leaves the redactor unchanged, so no counter, the one of Y
  included, advances. When the first request minted the token, its label is X,
  whatever Y is.
\<close>

theorem cross_category_reuse:
  assumes "session_wf self session_id"
    and "get_or_create_token self session_id category_x original_value = Inr (token, self1)"
    and "run_calls search known_names patterns self1 session_id calls = Inr self2"
  shows "get_or_create_token self2 session_id category_y original_value = Inr (token, self2)
       \<and> (token_value self session_id token = None \<longrightarrow> rsplit_head token = category_x)"
proof -
  from assms(1,2) have wf1: "session_wf self1 session_id"
    by (rule session_wf_get_or_create_token)
  from assms(1,2) have "token_value self1 session_id token = Some original_value"
    by (rule token_value_step(1))
  with run_calls_keeps [OF wf1 assms(3)]
  have wf2: "session_wf self2 session_id"
    and "token_value self2 session_id token = Some original_value" by simp_all
  then have a: "get_or_create_token self2 session_id category_y original_value = Inr (token, self2)"
    by (rule token_value_lookup)
  have "token_value self session_id token = None \<longrightarrow> rsplit_head token = category_x"
    using assms(2)
  proof (cases rule: get_or_create_token_cases)
    case (found smap)
    have "(token, original_value) \<in> set smap" using find_value_Some [OF found(2)] by simp
    then have "token \<in> fst ` set smap" by (rule image_eqI [rotated]) simp
    then have "map_of smap token \<noteq> None" by (simp add: map_of_eq_None_iff)
    with found(1) show ?thesis by (auto simp: token_value_def)
  next
    case (minted smap cs)
    show ?thesis unfolding minted(4) by simp
  qed
  with a show ?thesis by simp
qed

theorem cross_category_reuse_witness:
  "\<exists>self1 self2.
     get_or_create_token (init_session PIIRedactor_init ''s1'') ''s1'' ''EMAIL'' ''a@b.co''
       = Inr (''EMAIL_1'', self1)
   \<and> run_calls finditer KNOWN_NAMES PII_PATTERNS self1 ''s1'' [TokenRequest ''EMAIL'' ''c@d.co'']
       = Inr self2
   \<and> get_or_create_token self2 ''s1'' ''PERSON'' ''a@b.co'' = Inr (''EMAIL_1'', self2)
   \<and> rsplit_head ''EMAIL_1'' = ''EMAIL''
   \<and> redaction_map self2 ''s1'' = Some [(''EMAIL_1'', ''a@b.co''), (''EMAIL_2'', ''c@d.co'')]
   \<and> token_counters self2 ''s1'' = Some [''EMAIL'' \<mapsto> 2]"
proof -
  let ?s0 = "init_session PIIRedactor_init ''s1''"
  let ?s1 = "\<lparr>redaction_map = [''s1'' \<mapsto> [(''EMAIL_1'', ''a@b.co'')]],
              token_counters = [''s1'' \<mapsto> [''EMAIL'' \<mapsto> 1]]\<rparr>"
  let ?s2 = "\<lparr>redaction_map = [''s1'' \<mapsto> [(''EMAIL_1'', ''a@b.co''), (''EMAIL_2'', ''c@d.co'')]],
              token_counters = [''s1'' \<mapsto> [''EMAIL'' \<mapsto> 2]]\<rparr>"
  have tok1: "format_token ''EMAIL'' 1 = ''EMAIL_1''" by code_simp
  have tok2: "format_token ''EMAIL'' 2 = ''EMAIL_2''" by code_simp
  have wf0: "session_wf ?s0 ''s1''"
    by (simp add: session_wf_def init_session_def PIIRedactor_init_def session_inv_empty)
  have g1: "get_or_create_token ?s0 ''s1'' ''EMAIL'' ''a@b.co'' = Inr (''EMAIL_1'', ?s1)"
    by (simp add: get_or_create_token_def init_session_def PIIRedactor_init_def tok1 Let_def)
  have g2: "get_or_create_token ?s1 ''s1'' ''EMAIL'' ''c@d.co'' = Inr (''EMAIL_2'', ?s2)"
    by (simp add: get_or_create_token_def tok2 Let_def)
  then have r: "run_calls finditer KNOWN_NAMES PII_PATTERNS ?s1 ''s1''
      [TokenRequest ''EMAIL'' ''c@d.co''] = Inr ?s2" by simp
  have n: "token_value ?s0 ''s1'' ''EMAIL_1'' = None"
    by (simp add: token_value_def init_session_def PIIRedactor_init_def)
  from cross_category_reuse [OF wf0 g1 r, of "''PERSON''"] n
  have "get_or_create_token ?s2 ''s1'' ''PERSON'' ''a@b.co'' = Inr (''EMAIL_1'', ?s2)"
    and "rsplit_head ''EMAIL_1'' = ''EMAIL''" by simp_all
  with g1 r show ?thesis by (intro exI [of _ ?s1] exI [of _ ?s2]) simp
qed

end
